theory Spec2Isabelle
  imports Main "HOL-Library.Word" "HOL-Library.Sublist"
begin

section \<open>Data model of \<open>pkg/cmd/pr/list/http.go\<close>\<close>

text \<open>
  Go's \<open>int\<close> is a 64-bit two's complement integer on the platforms the tool is built
  for.  The backend's total count and the counter of removed records are modelled as
  64-bit words, because \<open>res.TotalCount -= removed\<close> is the one place where a value
  supplied by the requester enters an arithmetic operation that may wrap.  The limit, the
  page size and slice lengths are modelled as mathematical integers: the only arithmetic
  on them is \<open>limit - len(res.PullRequests)\<close>, evaluated when the length is between
  \<open>0\<close> and a non-negative limit or is \<open>0\<close>, so it never leaves the 64-bit range.
\<close>

type_synonym go_int = "64 word"

text \<open>Go's \<open>error\<close> interface: an opaque value carrying a message.\<close>

datatype error = Error string

text \<open>
  \<open>api.PullRequest\<close> is declared outside this file.  The loop reads two of its fields:
  \<open>Number\<close> and the pointer \<open>AutoMergeRequest\<close> (only compared with \<open>nil\<close>).
  \<open>Title\<close> stands for the remaining payload, which the loop never inspects.
\<close>

record AutoMergeRequest =
  MergeMethod :: string

record PullRequest =
  Number :: int
  Title :: string
  AutoMergeRequest :: "AutoMergeRequest option"

record PageInfo =
  HasNextPage :: bool
  EndCursor :: string

record responsePage =
  Nodes :: "PullRequest list"
  PageInfo :: PageInfo
  TotalCount :: go_int

text \<open>
  \<open>api.PullRequestAndTotalCount\<close> is declared outside this file as well; these are the
  four fields the file assigns.
\<close>

record PullRequestAndTotalCount =
  TotalCount :: go_int
  PullRequests :: "PullRequest list"
  SearchCapped :: bool
  TotalCountIsUpperBound :: bool

text \<open>
  A Go call either panics or returns.  A function returning \<open>(*T, error)\<close> returns a pair
  of a nullable pointer and a nullable error.
\<close>

datatype 'a go = Panic | Returned 'a

type_synonym 'a ptr_err = "'a option \<times> error option"

text \<open>
  The \<open>requester\<close> interface.  An implementation is a stateful object (it owns a client
  and mutates its variables), so \<open>Request\<close> takes the object's state and returns the new
  one next to its two results.
\<close>

type_synonym 's requester =
  "'s \<Rightarrow> int \<Rightarrow> string option \<Rightarrow> responsePage ptr_err \<times> 's"

section \<open>\<open>fetchPullRequests\<close>\<close>

definition min_int :: "int \<Rightarrow> int \<Rightarrow> int" where
  "min_int a b = (if a < b then a else b)"

text \<open>The local variables of \<open>fetchPullRequests\<close>.\<close>

record locals =
  pageLimit :: int
  endCursor :: "string option"
  res :: PullRequestAndTotalCount
  check :: "int set"
  removed :: go_int

definition initial :: "int \<Rightarrow> bool option \<Rightarrow> locals" where
  "initial limit autoMergeStatus =
     \<lparr> pageLimit = (if autoMergeStatus = None then min_int 100 limit else 100),
       endCursor = None,
       res = \<lparr> TotalCount = - 1, PullRequests = [], SearchCapped = False,
               TotalCountIsUpperBound = False \<rparr>,
       check = {},
       removed = 0 \<rparr>"

text \<open>
  The condition of line 55: a predicate is supplied and the record fails it.
\<close>

definition filtered_out :: "bool option \<Rightarrow> PullRequest \<Rightarrow> bool" where
  "filtered_out autoMergeStatus pr =
     (case autoMergeStatus of
        None \<Rightarrow> False
      | Some wanted \<Rightarrow> wanted = (AutoMergeRequest pr = None))"

text \<open>Lines 64 to 66: append while there is room.\<close>

definition append_pr :: "int \<Rightarrow> PullRequest \<Rightarrow> locals \<Rightarrow> locals" where
  "append_pr limit pr l =
     (if int (length (PullRequests (res l))) < limit
      then l\<lparr>res := (res l)\<lparr>PullRequests := PullRequests (res l) @ [pr]\<rparr>\<rparr>
      else l)"

text \<open>
  The inner loop over \<open>prData.Nodes\<close> (lines 49 to 70).  The boolean of the result is
  \<open>True\<close> when the loop was left by \<open>break loop\<close>.
\<close>

fun process_nodes ::
  "int \<Rightarrow> bool option \<Rightarrow> PullRequest list \<Rightarrow> locals \<Rightarrow> locals \<times> bool" where
  "process_nodes limit autoMergeStatus [] l = (l, False)"
| "process_nodes limit autoMergeStatus (pr # prs) l =
     (if Number pr \<in> check l \<and> Number pr > 0
      then process_nodes limit autoMergeStatus prs l
      else
        let l1 = l\<lparr>check := insert (Number pr) (check l)\<rparr> in
        if filtered_out autoMergeStatus pr
        then process_nodes limit autoMergeStatus prs
               (l1\<lparr>removed := removed l1 + 1,
                   res := (res l1)\<lparr>TotalCountIsUpperBound := True\<rparr>\<rparr>)
        else
          let l2 = append_pr limit pr l1 in
          if int (length (PullRequests (res l2))) = limit \<and> autoMergeStatus = None
          then (l2, True)
          else process_nodes limit autoMergeStatus prs l2)"

text \<open>
  How the outer loop is left: by \<open>return nil, err\<close>, by dereferencing a nil page (a
  requester that returns neither a page nor an error), or by one of the three breaks,
  with the locals as they are at that moment.
\<close>

datatype exit = Failed error | NilPage | Break locals

datatype 's step = Exit exit | Continue locals 's

text \<open>One pass through the body of the outer loop (lines 43 to 85).\<close>

definition iteration ::
  "'s requester \<Rightarrow> int \<Rightarrow> bool option \<Rightarrow> locals \<Rightarrow> 's \<Rightarrow> 's step" where
  "iteration r limit autoMergeStatus l s =
     (case r s (pageLimit l) (endCursor l) of
        ((prData, err), s') \<Rightarrow>
          (case err of
             Some e \<Rightarrow> Exit (Failed e)
           | None \<Rightarrow>
               (case prData of
                  None \<Rightarrow> Exit NilPage
                | Some page \<Rightarrow>
                    let l1 = l\<lparr>res := (res l)\<lparr>TotalCount := responsePage.TotalCount page\<rparr>\<rparr>;
                        (l2, broke) = process_nodes limit autoMergeStatus (Nodes page) l1
                    in
                      if broke then Exit (Break l2)
                      else if \<not> HasNextPage (PageInfo page)
                      then Exit (Break (l2\<lparr>res := (res l2)\<lparr>TotalCountIsUpperBound := False\<rparr>\<rparr>))
                      else if int (length (PullRequests (res l2))) = limit
                      then Exit (Break l2)
                      else
                        Continue
                          (l2\<lparr>endCursor := Some (EndCursor (PageInfo page)),
                              pageLimit :=
                                (if autoMergeStatus = None
                                 then min_int (pageLimit l2)
                                        (limit - int (length (PullRequests (res l2))))
                                 else pageLimit l2)\<rparr>)
                          s')))"

text \<open>
  The outer loop has no bound of its own: it runs until the requester fails, reports no
  next page, or the limit is reached.  \<open>None\<close> is the loop that never leaves.
\<close>

partial_function (option) loop ::
  "'s requester \<Rightarrow> int \<Rightarrow> bool option \<Rightarrow> locals \<Rightarrow> 's \<Rightarrow> exit option" where
  "loop r limit autoMergeStatus l s =
     (case iteration r limit autoMergeStatus l s of
        Exit x \<Rightarrow> Some x
      | Continue l' s' \<Rightarrow> loop r limit autoMergeStatus l' s')"

declare loop.simps [code]

text \<open>Lines 88 and 89, and the early \<open>return nil, err\<close>.\<close>

definition finish :: "exit \<Rightarrow> PullRequestAndTotalCount ptr_err go" where
  "finish x =
     (case x of
        Failed e \<Rightarrow> Returned (None, Some e)
      | NilPage \<Rightarrow> Panic
      | Break l \<Rightarrow> Returned (Some ((res l)\<lparr>TotalCount := TotalCount (res l) - removed l\<rparr>), None))"

definition fetchPullRequests ::
  "'s requester \<Rightarrow> 's \<Rightarrow> int \<Rightarrow> bool option \<Rightarrow> PullRequestAndTotalCount ptr_err go option" where
  "fetchPullRequests r s limit autoMergeStatus =
     map_option finish (loop r limit autoMergeStatus (initial limit autoMergeStatus) s)"

section \<open>\<open>searchRequester\<close> and \<open>searchPullRequests\<close>\<close>

text \<open>
  \<open>searchResponse\<close> (lines 203 to 212): the fields of its one member \<open>Search\<close>.
\<close>

record searchResponse =
  SearchNodes :: "PullRequest list"
  SearchPageInfo :: PageInfo
  IssueCount :: go_int

text \<open>
  The values stored in \<open>variables\<close>: the search query and the cursor are strings, the
  page size is an integer.
\<close>

datatype variable = StringVar string | IntVar int

record 'c searchRequester =
  client :: 'c
  hostname :: string
  variables :: "string \<rightharpoonup> variable"
  query :: string

text \<open>
  \<open>api.Client.GraphQL\<close> is declared outside this file and talks to the network, so it
  is a parameter: from the client, the host name, the query text and the variables it
  yields the error, the decoded data and the client afterwards.
\<close>

type_synonym 'c graphql =
  "'c \<Rightarrow> string \<Rightarrow> string \<Rightarrow> (string \<rightharpoonup> variable) \<Rightarrow> (error option \<times> searchResponse) \<times> 'c"

text \<open>\<open>(*searchRequester).Request\<close>, lines 221 to 237.\<close>

definition searchRequester_Request :: "'c graphql \<Rightarrow> 'c searchRequester requester" where
  "searchRequester_Request GraphQL r limit cursor =
     (let vars1 = (variables r)(''limit'' \<mapsto> IntVar limit);
          vars2 = (case cursor of
                     None \<Rightarrow> vars1
                   | Some c \<Rightarrow> vars1(''endCursor'' \<mapsto> StringVar c))
      in case GraphQL (client r) (hostname r) (query r) vars2 of
           ((err, data), client') \<Rightarrow>
             (case err of
                Some e \<Rightarrow> ((None, Some e), r\<lparr>client := client', variables := vars2\<rparr>)
              | None \<Rightarrow>
                  ((Some \<lparr> Nodes = SearchNodes data,
                            PageInfo = SearchPageInfo data,
                            responsePage.TotalCount = IssueCount data \<rparr>, None),
                   r\<lparr>client := client', variables := vars2\<rparr>)))"

text \<open>
  \<open>searchPullRequests\<close>, lines 239 to 273.  The query text and the search string come
  from functions declared outside this file (\<open>api.PullRequestGraphQL\<close>,
  \<open>prShared.SearchQueryBuild\<close>), so they are parameters, as are the client made from
  \<open>httpClient\<close> and the host of \<open>repo\<close>.  Line 271 assigns through \<open>res\<close> (here
  \<open>result\<close>) before \<open>err\<close> is looked at: on a nil \<open>res\<close> that is a nil pointer
  dereference.
\<close>

definition searchPullRequests ::
  "'c graphql \<Rightarrow> 'c \<Rightarrow> string \<Rightarrow> string \<Rightarrow> string \<Rightarrow> int \<Rightarrow> bool option \<Rightarrow>
     PullRequestAndTotalCount ptr_err go option" where
  "searchPullRequests GraphQL httpClient repoHost queryText q limit autoMergeStatus =
     (let r = \<lparr> client = httpClient, hostname = repoHost,
                variables = [''q'' \<mapsto> StringVar q], query = queryText \<rparr>
      in case fetchPullRequests (searchRequester_Request GraphQL) r limit autoMergeStatus of
           None \<Rightarrow> None
         | Some Panic \<Rightarrow> Some Panic
         | Some (Returned (result, err)) \<Rightarrow>
             (case result of
                None \<Rightarrow> Some Panic
              | Some v \<Rightarrow> Some (Returned (Some (v\<lparr>SearchCapped := limit > 1000\<rparr>), err))))"

section \<open>Observing a run\<close>

abbreviation out :: "locals \<Rightarrow> PullRequest list" where
  "out l \<equiv> PullRequests (res l)"

abbreviation flag :: "locals \<Rightarrow> bool" where
  "flag l \<equiv> TotalCountIsUpperBound (res l)"

abbreviation kept :: "bool option \<Rightarrow> PullRequest \<Rightarrow> bool" where
  "kept autoMergeStatus p \<equiv> \<not> filtered_out autoMergeStatus p"

text \<open>The call of line 43 as made with the locals \<open>l\<close> and the requester's state \<open>s\<close>.\<close>

abbreviation request :: "'s requester \<Rightarrow> locals \<Rightarrow> 's \<Rightarrow> responsePage ptr_err \<times> 's" where
  "request r l s \<equiv> r s (pageLimit l) (endCursor l)"

text \<open>The page a request delivered, if it delivered one.\<close>

definition page_list :: "responsePage ptr_err \<Rightarrow> responsePage list" where
  "page_list pe =
     (case snd pe of
        Some e \<Rightarrow> []
      | None \<Rightarrow> (case fst pe of None \<Rightarrow> [] | Some page \<Rightarrow> [page]))"

text \<open>
  \<open>after_pages r limit ams k l s = Some (pgs, l', s')\<close>: started with the locals \<open>l\<close> and
  the requester in state \<open>s\<close>, the loop passes through its body \<open>k\<close> times without leaving,
  receives the pages \<open>pgs\<close> in this order, and stands before its next request with the
  locals \<open>l'\<close> and the requester in state \<open>s'\<close>.
\<close>

fun after_pages ::
  "'s requester \<Rightarrow> int \<Rightarrow> bool option \<Rightarrow> nat \<Rightarrow> locals \<Rightarrow> 's \<Rightarrow>
     (responsePage list \<times> locals \<times> 's) option" where
  "after_pages r limit ams 0 l s = Some ([], l, s)"
| "after_pages r limit ams (Suc k) l s =
     (case iteration r limit ams l s of
        Exit x \<Rightarrow> None
      | Continue l' s' \<Rightarrow>
          map_option (\<lambda>(pgs, ls). (page_list (fst (request r l s)) @ pgs, ls))
            (after_pages r limit ams k l' s'))"

text \<open>
  \<open>run_pages r limit ams k l s = Some (pgs, x)\<close>: the loop leaves during its pass number
  \<open>k + 1\<close>, in the way \<open>x\<close>, having received the pages \<open>pgs\<close>.
\<close>

definition run_pages ::
  "'s requester \<Rightarrow> int \<Rightarrow> bool option \<Rightarrow> nat \<Rightarrow> locals \<Rightarrow> 's \<Rightarrow>
     (responsePage list \<times> exit) option" where
  "run_pages r limit ams k l s =
     (case after_pages r limit ams k l s of
        None \<Rightarrow> None
      | Some (pgs, l', s') \<Rightarrow>
          (case iteration r limit ams l' s' of
             Continue l'' s'' \<Rightarrow> None
           | Exit x \<Rightarrow> Some (pgs @ page_list (fst (request r l' s')), x)))"

text \<open>
  The pages an invocation of \<open>fetchPullRequests\<close> receives when its request number
  \<open>k + 1\<close> is the last one.
\<close>

definition fetched_pages ::
  "'s requester \<Rightarrow> 's \<Rightarrow> int \<Rightarrow> bool option \<Rightarrow> nat \<Rightarrow> responsePage list option" where
  "fetched_pages r s limit ams k =
     map_option fst (run_pages r limit ams k (initial limit ams) s)"

definition nodes_of :: "responsePage list \<Rightarrow> PullRequest list" where
  "nodes_of pgs = concat (map Nodes pgs)"

text \<open>
  The specification's deduplication, in its own words: going through the records in
  order, a record is dropped when its key is already present and is not the unset
  sentinel (for the code: is positive); otherwise its key is marked present.
\<close>

fun first_seen :: "int set \<Rightarrow> PullRequest list \<Rightarrow> PullRequest list" where
  "first_seen seen [] = []"
| "first_seen seen (pr # prs) =
     (if Number pr \<in> seen \<and> Number pr > 0 then first_seen seen prs
      else pr # first_seen (insert (Number pr) seen) prs)"

text \<open>
  The same in terms of positions: the record at position \<open>i\<close> is a first occurrence
  unless its key is positive and occurs in \<open>seen\<close> or at an earlier position.
\<close>

definition first_occurrence :: "int set \<Rightarrow> PullRequest list \<Rightarrow> nat \<Rightarrow> bool" where
  "first_occurrence seen xs i \<longleftrightarrow>
     \<not> (0 < Number (xs ! i) \<and>
        (Number (xs ! i) \<in> seen \<or> (\<exists>j<i. Number (xs ! j) = Number (xs ! i))))"

text \<open>
  The number of records of the pages \<open>pgs\<close> that pass deduplication and are then
  removed by the inclusion predicate.
\<close>

definition removed_by_predicate :: "bool option \<Rightarrow> responsePage list \<Rightarrow> nat" where
  "removed_by_predicate ams pgs =
     length (filter (filtered_out ams) (first_seen {} (nodes_of pgs)))"

section \<open>Test doubles\<close>

text \<open>
  A requester that replays a script: each request takes the next response of the list,
  whatever the page size and cursor, and fails once the script is used up.
\<close>

fun scripted :: "(responsePage ptr_err) list requester" where
  "scripted [] n c = ((None, Some (Error ''no more responses'')), [])"
| "scripted (x # xs) n c = (x, xs)"

definition pr_of :: "int \<Rightarrow> bool \<Rightarrow> PullRequest" where
  "pr_of n auto =
     \<lparr> Number = n, Title = ''pr'',
       AutoMergeRequest = (if auto then Some \<lparr> MergeMethod = ''squash'' \<rparr> else None) \<rparr>"

definition page_of :: "PullRequest list \<Rightarrow> bool \<Rightarrow> go_int \<Rightarrow> responsePage" where
  "page_of prs has_next count =
     \<lparr> Nodes = prs, PageInfo = \<lparr> HasNextPage = has_next, EndCursor = ''cursor'' \<rparr>,
       responsePage.TotalCount = count \<rparr>"

definition ok :: "responsePage \<Rightarrow> responsePage ptr_err" where
  "ok p = (Some p, None)"

text \<open>A GraphQL client whose every call fails.\<close>

definition failing_graphql :: "unit graphql" where
  "failing_graphql c host text vars =
     ((Some (Error ''HTTP 502''),
       \<lparr> SearchNodes = [], SearchPageInfo = \<lparr> HasNextPage = False, EndCursor = [] \<rparr>,
         IssueCount = 0 \<rparr>), c)"

text \<open>Two pages that share pull request 2; the second is the last.\<close>

definition page_a :: responsePage where
  "page_a = page_of [pr_of 1 False, pr_of 2 True] True 7"

definition page_b :: responsePage where
  "page_b = page_of [pr_of 2 True, pr_of 3 True] False 8"

definition two_pages :: "responsePage ptr_err list" where
  "two_pages = [ok page_a, ok page_b]"

text \<open>
  A page with more to come: pull request 1 has no auto-merge request, 2 and 3 have one.
\<close>

definition page_c :: responsePage where
  "page_c = page_of [pr_of 1 False, pr_of 2 True, pr_of 3 True] True 9"

text \<open>A page with more to come that holds pull request 4 alone.\<close>

definition page_f :: responsePage where
  "page_f = page_of [pr_of 4 True] True 9"

text \<open>A last page: pull request 1 has no auto-merge request, 2 has one.\<close>

definition page_d :: responsePage where
  "page_d = page_of [pr_of 1 False, pr_of 2 True] False 2"

text \<open>A last page with two records that carry the key \<open>-1\<close>.\<close>

definition page_e :: responsePage where
  "page_e = page_of [pr_of (- 1) False, pr_of (- 1) True] False 2"

text \<open>
  Locals in which the keys 0 and 2 are present and a record with key 0 is already in the
  output.
\<close>

definition seen_zero :: locals where
  "seen_zero =
     (initial 10 None)
       \<lparr>res := (res (initial 10 None))\<lparr>PullRequests := [pr_of 0 False]\<rparr>, check := {0, 2}\<rparr>"

text \<open>A script whose second response is an error.\<close>

definition failing_script :: "responsePage ptr_err list" where
  "failing_script = [ok page_a, (None, Some (Error ''HTTP 502''))]"

lemmas eval_defs = fetchPullRequests_def loop.simps iteration_def initial_def finish_def
  filtered_out_def append_pr_def min_int_def fetched_pages_def run_pages_def page_list_def
  ok_def page_of_def pr_of_def nodes_of_def removed_by_predicate_def
  page_a_def page_b_def page_c_def page_d_def page_e_def page_f_def two_pages_def
  failing_script_def

section \<open>Deduplication\<close>

lemma first_seen_append:
  "first_seen seen (xs @ ys) = first_seen seen xs @ first_seen (seen \<union> Number ` set xs) ys"
  by (induction xs arbitrary: seen) (auto simp: insert_absorb)

lemma first_seen_subseq: "subseq (first_seen seen xs) xs"
  by (induction xs arbitrary: seen) auto

lemma first_seen_fresh:
  "p \<in> set (first_seen seen xs) \<Longrightarrow> 0 < Number p \<Longrightarrow> Number p \<notin> seen"
proof (induction xs arbitrary: seen)
  case Nil
  then show ?case by simp
next
  case (Cons x xs)
  show ?case
  proof (cases "Number x \<in> seen \<and> 0 < Number x")
    case True
    with Cons show ?thesis by simp
  next
    case False
    with Cons.prems(1) consider "p = x" | "p \<in> set (first_seen (insert (Number x) seen) xs)"
      by auto
    then show ?thesis
    proof cases
      case 1
      with False Cons.prems(2) show ?thesis by simp
    next
      case 2
      from Cons.IH [OF this Cons.prems(2)] show ?thesis by simp
    qed
  qed
qed

lemma first_seen_distinct:
  "distinct (map Number (filter (\<lambda>p. 0 < Number p) (first_seen seen xs)))"
proof (induction xs arbitrary: seen)
  case Nil
  then show ?case by simp
next
  case (Cons x xs)
  have "Number x \<notin> Number ` {p \<in> set (first_seen (insert (Number x) seen) xs). 0 < Number p}"
  proof
    assume "Number x \<in> Number ` {p \<in> set (first_seen (insert (Number x) seen) xs). 0 < Number p}"
    then obtain p where "p \<in> set (first_seen (insert (Number x) seen) xs)" "0 < Number p"
      "Number x = Number p" by auto
    with first_seen_fresh [of p "insert (Number x) seen" xs] show False by simp
  qed
  with Cons show ?case by simp
qed

lemma first_seen_nonpositive:
  "filter (\<lambda>p. Number p \<le> 0) (first_seen seen xs) = filter (\<lambda>p. Number p \<le> 0) xs"
  by (induction xs arbitrary: seen) auto

lemma first_occurrence_snoc_old:
  "i < length xs \<Longrightarrow> first_occurrence seen (xs @ [x]) i = first_occurrence seen xs i"
  by (auto simp: first_occurrence_def nth_append)

lemma first_occurrence_snoc_new:
  "first_occurrence seen (xs @ [x]) (length xs) \<longleftrightarrow>
   \<not> (0 < Number x \<and> Number x \<in> seen \<union> Number ` set xs)"
proof -
  have "(\<exists>j<length xs. Number (xs ! j) = Number x) \<longleftrightarrow> Number x \<in> Number ` set xs"
  proof
    assume "\<exists>j<length xs. Number (xs ! j) = Number x"
    then obtain j where "j < length xs" and eq: "Number (xs ! j) = Number x" by blast
    then have "xs ! j \<in> set xs" by simp
    then have "Number (xs ! j) \<in> Number ` set xs" by (rule imageI)
    with eq show "Number x \<in> Number ` set xs" by simp
  next
    assume "Number x \<in> Number ` set xs"
    then obtain y where "y \<in> set xs" and eq: "Number x = Number y" by auto
    then obtain j where "j < length xs" "xs ! j = y" by (auto simp: in_set_conv_nth)
    with eq show "\<exists>j<length xs. Number (xs ! j) = Number x" by auto
  qed
  then show ?thesis
    by (auto simp: first_occurrence_def nth_append)
qed

lemma first_seen_index:
  "first_seen seen xs =
   map ((!) xs) (filter (first_occurrence seen xs) [0..<length xs])"
proof (induction xs rule: rev_induct)
  case Nil
  then show ?case by simp
next
  case (snoc x xs)
  have old: "map ((!) (xs @ [x])) (filter (first_occurrence seen (xs @ [x])) [0..<length xs]) =
             map ((!) xs) (filter (first_occurrence seen xs) [0..<length xs])"
    by (auto simp: first_occurrence_snoc_old nth_append intro!: map_cong filter_cong)
  show ?case
    by (simp add: first_seen_append snoc.IH old first_occurrence_snoc_new)
qed

section \<open>Signed reading of the count\<close>

lemma sint_of_nat64: "sint (of_nat n :: 64 word) = signed_take_bit 63 (int n)"
proof -
  have "(of_nat n :: 64 word) = word_of_int (int n)" by simp
  then show ?thesis by (simp only: sint_sbintrunc') simp
qed

lemma sint_self64: "signed_take_bit 63 (sint (t :: 64 word)) = sint t"
  using sint_lt [of t] sint_ge [of t] by (intro signed_take_bit_int_eq_self) simp_all

lemma sint_sub_of_nat_wrap:
  "sint (t - of_nat n :: 64 word) = signed_take_bit 63 (sint t - int n)"
proof -
  have "sint (t - of_nat n :: 64 word) =
        signed_take_bit 63 (signed_take_bit 63 (sint t) - signed_take_bit 63 (int n))"
    by (simp add: sint_word_ariths sint_of_nat64 sint_self64)
  then show ?thesis by (simp only: signed_take_bit_diff)
qed

lemma sint_sub_of_nat:
  fixes t :: "64 word"
  assumes "- (2 ^ 63) \<le> sint t - int n"
  shows "sint (t - of_nat n) = sint t - int n"
proof -
  have "sint t - int n < 2 ^ 63" using sint_lt [of t] by simp
  with assms show ?thesis
    by (simp only: sint_sub_of_nat_wrap signed_take_bit_int_eq_self)
qed

section \<open>The inner loop\<close>

lemma append_pr_frame:
  "pageLimit (append_pr limit p l) = pageLimit l"
  "endCursor (append_pr limit p l) = endCursor l"
  "check (append_pr limit p l) = check l"
  "removed (append_pr limit p l) = removed l"
  "TotalCount (res (append_pr limit p l)) = TotalCount (res l)"
  "SearchCapped (res (append_pr limit p l)) = SearchCapped (res l)"
  "TotalCountIsUpperBound (res (append_pr limit p l)) = TotalCountIsUpperBound (res l)"
  by (simp_all add: append_pr_def)

lemma append_pr_out:
  "length (out l) \<le> nat limit \<Longrightarrow>
   out (append_pr limit p l) = take (nat limit) (out l @ [p])"
  by (auto simp: append_pr_def)

lemma process_nodes_frame:
  "pageLimit (fst (process_nodes limit ams ns l)) = pageLimit l \<and>
   endCursor (fst (process_nodes limit ams ns l)) = endCursor l \<and>
   TotalCount (res (fst (process_nodes limit ams ns l))) = TotalCount (res l) \<and>
   SearchCapped (res (fst (process_nodes limit ams ns l))) = SearchCapped (res l)"
  by (induction ns arbitrary: l) (simp_all add: Let_def append_pr_frame)

lemma process_nodes_no_break: "ams \<noteq> None \<Longrightarrow> \<not> snd (process_nodes limit ams ns l)"
  by (induction ns arbitrary: l) (auto simp: Let_def)

lemma process_nodes_break:
  "snd (process_nodes limit ams ns l) \<Longrightarrow>
   ams = None \<and> int (length (out (fst (process_nodes limit ams ns l)))) = limit"
  by (induction ns arbitrary: l) (auto simp: Let_def split: if_splits)

lemma process_nodes_check:
  "\<not> snd (process_nodes limit ams ns l) \<Longrightarrow>
   check (fst (process_nodes limit ams ns l)) = check l \<union> Number ` set ns"
  by (induction ns arbitrary: l) (auto simp: Let_def append_pr_frame split: if_splits)

lemma process_nodes_removed:
  "removed (fst (process_nodes limit ams ns l)) =
   removed l + of_nat (length (filter (filtered_out ams) (first_seen (check l) ns)))"
  by (induction ns arbitrary: l) (auto simp: Let_def append_pr_frame filtered_out_def)

lemma process_nodes_flag:
  "TotalCountIsUpperBound (res (fst (process_nodes limit ams ns l))) =
   (TotalCountIsUpperBound (res l) \<or> (\<exists>p \<in> set (first_seen (check l) ns). filtered_out ams p))"
  by (induction ns arbitrary: l) (auto simp: Let_def append_pr_frame filtered_out_def)

lemma take_take_append: "take n (take n xs @ ys) = take n (xs @ ys)"
  by (cases "n \<le> length xs") auto

lemma take_snoc_full:
  "length (take n (xs @ [p])) = n \<Longrightarrow> take n (xs @ p # ys) = take n (xs @ [p])"
  by (cases "n - length xs") auto

lemma process_nodes_out:
  "length (out l) \<le> nat limit \<Longrightarrow>
   out (fst (process_nodes limit ams ns l)) =
   take (nat limit) (out l @ filter (kept ams) (first_seen (check l) ns))"
proof (induction ns arbitrary: l)
  case Nil
  then show ?case by simp
next
  case (Cons p ps)
  show ?case
  proof (cases "Number p \<in> check l \<and> 0 < Number p")
    case True
    with Cons show ?thesis by simp
  next
    case fresh: False
    define l1 where "l1 = l\<lparr>check := insert (Number p) (check l)\<rparr>"
    have fs: "first_seen (check l) (p # ps) = p # first_seen (insert (Number p) (check l)) ps"
      using fresh by auto
    show ?thesis
    proof (cases "filtered_out ams p")
      case True
      define l2 where "l2 = l1\<lparr>removed := removed l1 + 1, res := (res l1)\<lparr>TotalCountIsUpperBound := True\<rparr>\<rparr>"
      have pn: "process_nodes limit ams (p # ps) l = process_nodes limit ams ps l2"
        using fresh True by (auto simp: Let_def l2_def l1_def)
      have "length (out l2) \<le> nat limit" "out l2 = out l" "check l2 = insert (Number p) (check l)"
        using Cons.prems by (simp_all add: l2_def l1_def)
      with Cons.IH [of l2] True show ?thesis
        unfolding pn fs by simp
    next
      case keep: False
      define l2 where "l2 = append_pr limit p l1"
      have out2: "out l2 = take (nat limit) (out l @ [p])"
        using Cons.prems by (simp add: l2_def l1_def append_pr_out)
      have chk2: "check l2 = insert (Number p) (check l)"
        by (simp add: l2_def l1_def append_pr_frame)
      have fl: "filter (kept ams) (first_seen (check l) (p # ps)) =
                p # filter (kept ams) (first_seen (insert (Number p) (check l)) ps)"
        using keep by (simp only: fs filter.simps if_True simp_thms)
      show ?thesis
      proof (cases "int (length (out l2)) = limit \<and> ams = None")
        case True
        have pn: "process_nodes limit ams (p # ps) l = (l2, True)"
          using fresh keep True by (auto simp: Let_def l2_def l1_def)
        have "length (out l2) = nat limit"
          using True by auto
        then have "length (take (nat limit) (out l @ [p])) = nat limit"
          unfolding out2 .
        then have "take (nat limit) (out l @ p # filter (kept ams) (first_seen (insert (Number p) (check l)) ps))
                   = take (nat limit) (out l @ [p])"
          by (rule take_snoc_full)
        then have "take (nat limit) (out l @ p # filter (kept ams) (first_seen (insert (Number p) (check l)) ps))
                   = out l2"
          unfolding out2 .
        then show ?thesis
          unfolding pn fl fst_conv by simp
      next
        case False
        have pn: "process_nodes limit ams (p # ps) l = process_nodes limit ams ps l2"
          using fresh keep False by (auto simp: Let_def l2_def l1_def)
        have "length (out l2) \<le> nat limit" using out2 by simp
        from Cons.IH [OF this]
        have "out (fst (process_nodes limit ams ps l2)) =
              take (nat limit) (out l @ [p] @ filter (kept ams) (first_seen (insert (Number p) (check l)) ps))"
          by (simp only: out2 chk2 take_take_append append_assoc)
        then show ?thesis
          unfolding pn fl by simp
      qed
    qed
  qed
qed

lemma iteration_Continue:
  assumes "iteration r limit ams l s = Continue l' s'"
  obtains page l2 where
    "request r l s = ((Some page, None), s')"
    "process_nodes limit ams (Nodes page)
       (l\<lparr>res := (res l)\<lparr>TotalCount := responsePage.TotalCount page\<rparr>\<rparr>) = (l2, False)"
    "HasNextPage (PageInfo page)"
    "int (length (out l2)) \<noteq> limit"
    "l' = l2\<lparr>endCursor := Some (EndCursor (PageInfo page)),
              pageLimit := (if ams = None
                            then min_int (pageLimit l2) (limit - int (length (out l2)))
                            else pageLimit l2)\<rparr>"
  using assms unfolding iteration_def
  by (auto simp: Let_def split: prod.splits option.splits if_splits)

lemma iteration_Break:
  assumes "iteration r limit ams l s = Exit (Break lf)"
  obtains page s' l2 broke where
    "request r l s = ((Some page, None), s')"
    "process_nodes limit ams (Nodes page)
       (l\<lparr>res := (res l)\<lparr>TotalCount := responsePage.TotalCount page\<rparr>\<rparr>) = (l2, broke)"
    "broke \<or> \<not> HasNextPage (PageInfo page) \<or> int (length (out l2)) = limit"
    "lf = (if \<not> broke \<and> \<not> HasNextPage (PageInfo page)
           then l2\<lparr>res := (res l2)\<lparr>TotalCountIsUpperBound := False\<rparr>\<rparr> else l2)"
  using assms unfolding iteration_def
  by (auto simp: Let_def split: prod.splits option.splits if_splits)

lemma iteration_Continue_effect:
  assumes "iteration r limit ams l s = Continue l' s'" and "length (out l) \<le> nat limit"
  obtains page where
    "request r l s = ((Some page, None), s')"
    "HasNextPage (PageInfo page)"
    "out l' = take (nat limit) (out l @ filter (kept ams) (first_seen (check l) (Nodes page)))"
    "check l' = check l \<union> Number ` set (Nodes page)"
    "removed l' = removed l +
       of_nat (length (filter (filtered_out ams) (first_seen (check l) (Nodes page))))"
    "flag l' = (flag l \<or> (\<exists>p \<in> set (first_seen (check l) (Nodes page)). filtered_out ams p))"
    "TotalCount (res l') = responsePage.TotalCount page"
    "SearchCapped (res l') = SearchCapped (res l)"
    "int (length (out l')) \<noteq> limit"
    "pageLimit l' = (if ams = None then min_int (pageLimit l) (limit - int (length (out l')))
                     else pageLimit l)"
    "endCursor l' = Some (EndCursor (PageInfo page))"
proof -
  from assms(1) obtain page l2 where
    rq: "request r l s = ((Some page, None), s')" and
    pn: "process_nodes limit ams (Nodes page)
       (l\<lparr>res := (res l)\<lparr>TotalCount := responsePage.TotalCount page\<rparr>\<rparr>) = (l2, False)" and
    hn: "HasNextPage (PageInfo page)" and
    ne: "int (length (out l2)) \<noteq> limit" and
    l': "l' = l2\<lparr>endCursor := Some (EndCursor (PageInfo page)),
              pageLimit := (if ams = None
                            then min_int (pageLimit l2) (limit - int (length (out l2)))
                            else pageLimit l2)\<rparr>"
    by (rule iteration_Continue)
  let ?l0 = "l\<lparr>res := (res l)\<lparr>TotalCount := responsePage.TotalCount page\<rparr>\<rparr>"
  have len0: "length (out ?l0) \<le> nat limit" using assms(2) by simp
  have "out l2 = take (nat limit) (out l @ filter (kept ams) (first_seen (check l) (Nodes page)))"
    using process_nodes_out [OF len0, of ams "Nodes page"] pn by simp
  moreover have "check l2 = check l \<union> Number ` set (Nodes page)"
    using process_nodes_check [of limit ams "Nodes page" ?l0] pn by simp
  moreover have "removed l2 = removed l +
       of_nat (length (filter (filtered_out ams) (first_seen (check l) (Nodes page))))"
    using process_nodes_removed [of limit ams "Nodes page" ?l0] pn by simp
  moreover have "flag l2 = (flag l \<or> (\<exists>p \<in> set (first_seen (check l) (Nodes page)). filtered_out ams p))"
    using process_nodes_flag [of limit ams "Nodes page" ?l0] pn by simp
  moreover have "TotalCount (res l2) = responsePage.TotalCount page"
    "SearchCapped (res l2) = SearchCapped (res l)" "pageLimit l2 = pageLimit l"
    using process_nodes_frame [of limit ams "Nodes page" ?l0] pn by simp_all
  ultimately show thesis
    using rq hn ne by (intro that [of page]) (simp_all add: l')
qed

lemma iteration_Break_effect:
  assumes "iteration r limit ams l s = Exit (Break lf)" and "length (out l) \<le> nat limit"
    and "ams = None \<longrightarrow> \<not> flag l"
  obtains page s' where
    "request r l s = ((Some page, None), s')"
    "out lf = take (nat limit) (out l @ filter (kept ams) (first_seen (check l) (Nodes page)))"
    "removed lf = removed l +
       of_nat (length (filter (filtered_out ams) (first_seen (check l) (Nodes page))))"
    "flag lf = (HasNextPage (PageInfo page) \<and>
       (flag l \<or> (\<exists>p \<in> set (first_seen (check l) (Nodes page)). filtered_out ams p)))"
    "TotalCount (res lf) = responsePage.TotalCount page"
    "SearchCapped (res lf) = SearchCapped (res l)"
    "HasNextPage (PageInfo page) \<longrightarrow> int (length (out lf)) = limit"
proof -
  from assms(1) obtain page s' l2 broke where
    rq: "request r l s = ((Some page, None), s')" and
    pn: "process_nodes limit ams (Nodes page)
       (l\<lparr>res := (res l)\<lparr>TotalCount := responsePage.TotalCount page\<rparr>\<rparr>) = (l2, broke)" and
    why: "broke \<or> \<not> HasNextPage (PageInfo page) \<or> int (length (out l2)) = limit" and
    lf: "lf = (if \<not> broke \<and> \<not> HasNextPage (PageInfo page)
           then l2\<lparr>res := (res l2)\<lparr>TotalCountIsUpperBound := False\<rparr>\<rparr> else l2)"
    by (rule iteration_Break)
  let ?l0 = "l\<lparr>res := (res l)\<lparr>TotalCount := responsePage.TotalCount page\<rparr>\<rparr>"
  have len0: "length (out ?l0) \<le> nat limit" using assms(2) by simp
  have o: "out l2 = take (nat limit) (out l @ filter (kept ams) (first_seen (check l) (Nodes page)))"
    using process_nodes_out [OF len0, of ams "Nodes page"] pn by simp
  have rm: "removed l2 = removed l +
       of_nat (length (filter (filtered_out ams) (first_seen (check l) (Nodes page))))"
    using process_nodes_removed [of limit ams "Nodes page" ?l0] pn by simp
  have fl: "flag l2 = (flag l \<or> (\<exists>p \<in> set (first_seen (check l) (Nodes page)). filtered_out ams p))"
    using process_nodes_flag [of limit ams "Nodes page" ?l0] pn by simp
  have fr: "TotalCount (res l2) = responsePage.TotalCount page"
    "SearchCapped (res l2) = SearchCapped (res l)"
    using process_nodes_frame [of limit ams "Nodes page" ?l0] pn by simp_all
  have br: "broke \<Longrightarrow> ams = None \<and> int (length (out l2)) = limit"
    using process_nodes_break [of limit ams "Nodes page" ?l0] pn by simp
  have nofilter: "ams = None \<Longrightarrow> \<not> flag l2"
    using fl assms(3) by (simp add: filtered_out_def)
  have "flag lf = (HasNextPage (PageInfo page) \<and>
       (flag l \<or> (\<exists>p \<in> set (first_seen (check l) (Nodes page)). filtered_out ams p)))"
  proof (cases broke)
    case True
    with br nofilter have "\<not> flag l2" by simp
    moreover from this fl have "\<not> (flag l \<or> (\<exists>p \<in> set (first_seen (check l) (Nodes page)). filtered_out ams p))"
      by simp
    ultimately show ?thesis using True lf by simp
  next
    case False
    then show ?thesis using lf fl by auto
  qed
  moreover have "HasNextPage (PageInfo page) \<longrightarrow> int (length (out lf)) = limit"
    using why br lf by auto
  ultimately show thesis
    using rq o rm fr by (intro that [of page s']) (simp_all add: lf)
qed

lemma nodes_of_simps [simp]:
  "nodes_of [] = []"
  "nodes_of (page # pgs) = Nodes page @ nodes_of pgs"
  "nodes_of (pgs @ pgs') = nodes_of pgs @ nodes_of pgs'"
  by (simp_all add: nodes_of_def)

lemma after_pages_SucE:
  assumes "after_pages r limit ams (Suc k) l s = Some (pgs, l', s')"
  obtains l1 s1 pgs1 where
    "iteration r limit ams l s = Continue l1 s1"
    "after_pages r limit ams k l1 s1 = Some (pgs1, l', s')"
    "pgs = page_list (fst (request r l s)) @ pgs1"
  using assms by (auto split: step.splits)

lemma after_pages_inv:
  assumes "after_pages r limit ams k l s = Some (pgs, l', s')" and "length (out l) \<le> nat limit"
  shows "length pgs = k \<and>
    out l' = take (nat limit) (out l @ filter (kept ams) (first_seen (check l) (nodes_of pgs))) \<and>
    check l' = check l \<union> Number ` set (nodes_of pgs) \<and>
    removed l' = removed l +
       of_nat (length (filter (filtered_out ams) (first_seen (check l) (nodes_of pgs)))) \<and>
    flag l' = (flag l \<or> (\<exists>p \<in> set (first_seen (check l) (nodes_of pgs)). filtered_out ams p)) \<and>
    SearchCapped (res l') = SearchCapped (res l)"
  using assms
proof (induction k arbitrary: l s pgs)
  case 0
  then show ?case by simp
next
  case (Suc k)
  from Suc.prems(1) obtain l1 s1 pgs1 where
    it: "iteration r limit ams l s = Continue l1 s1" and
    ap: "after_pages r limit ams k l1 s1 = Some (pgs1, l', s')" and
    pgs: "pgs = page_list (fst (request r l s)) @ pgs1"
    by (rule after_pages_SucE)
  from it Suc.prems(2) obtain page where
    rq: "request r l s = ((Some page, None), s1)" and
    o1: "out l1 = take (nat limit) (out l @ filter (kept ams) (first_seen (check l) (Nodes page)))" and
    c1: "check l1 = check l \<union> Number ` set (Nodes page)" and
    r1: "removed l1 = removed l +
       of_nat (length (filter (filtered_out ams) (first_seen (check l) (Nodes page))))" and
    f1: "flag l1 = (flag l \<or> (\<exists>p \<in> set (first_seen (check l) (Nodes page)). filtered_out ams p))" and
    s1: "SearchCapped (res l1) = SearchCapped (res l)"
    by (rule iteration_Continue_effect)
  have pgs': "pgs = page # pgs1" using pgs rq by (simp add: page_list_def)
  have fs: "first_seen (check l) (nodes_of pgs) =
            first_seen (check l) (Nodes page) @ first_seen (check l1) (nodes_of pgs1)"
    by (simp add: pgs' first_seen_append c1)
  have len1: "length (out l1) \<le> nat limit" using o1 by simp
  from Suc.IH [OF ap len1] have
    k: "length pgs1 = k" and
    o: "out l' = take (nat limit) (out l1 @ filter (kept ams) (first_seen (check l1) (nodes_of pgs1)))" and
    c: "check l' = check l1 \<union> Number ` set (nodes_of pgs1)" and
    rm: "removed l' = removed l1 +
       of_nat (length (filter (filtered_out ams) (first_seen (check l1) (nodes_of pgs1))))" and
    f: "flag l' = (flag l1 \<or> (\<exists>p \<in> set (first_seen (check l1) (nodes_of pgs1)). filtered_out ams p))" and
    sc: "SearchCapped (res l') = SearchCapped (res l1)"
    by simp_all
  have "length pgs = Suc k" using k pgs' by simp
  moreover have "out l' = take (nat limit) (out l @ filter (kept ams) (first_seen (check l) (nodes_of pgs)))"
    unfolding o o1 fs by (simp only: take_take_append filter_append append_assoc)
  moreover have "check l' = check l \<union> Number ` set (nodes_of pgs)"
    unfolding c c1 pgs' by auto
  moreover have "removed l' = removed l +
       of_nat (length (filter (filtered_out ams) (first_seen (check l) (nodes_of pgs))))"
    unfolding rm r1 fs by simp
  moreover have "flag l' = (flag l \<or> (\<exists>p \<in> set (first_seen (check l) (nodes_of pgs)). filtered_out ams p))"
    unfolding f f1 fs by auto
  moreover have "SearchCapped (res l') = SearchCapped (res l)"
    using sc s1 by simp
  ultimately show ?case by simp
qed

lemma loop_after_pages:
  "after_pages r limit ams k l s = Some (pgs, l', s') \<Longrightarrow>
   loop r limit ams l s = loop r limit ams l' s'"
proof (induction k arbitrary: l s pgs)
  case 0
  then show ?case by simp
next
  case (Suc k)
  from Suc.prems obtain l1 s1 pgs1 where
    it: "iteration r limit ams l s = Continue l1 s1" and
    ap: "after_pages r limit ams k l1 s1 = Some (pgs1, l', s')"
    by (rule after_pages_SucE)
  have "loop r limit ams l s = loop r limit ams l1 s1"
    by (subst loop.simps) (simp add: it)
  with Suc.IH [OF ap] show ?case by simp
qed

lemma run_pages_loop:
  assumes "run_pages r limit ams k l s = Some (pgs, x)"
  shows "loop r limit ams l s = Some x"
proof -
  from assms obtain pgs0 l' s' where
    ap: "after_pages r limit ams k l s = Some (pgs0, l', s')" and
    it: "iteration r limit ams l' s' = Exit x"
    by (auto simp: run_pages_def split: option.splits step.splits)
  have "loop r limit ams l' s' = Some x"
    by (subst loop.simps) (simp add: it)
  with loop_after_pages [OF ap] show ?thesis by simp
qed

lemma run_pages_Suc:
  "iteration r limit ams l s = Continue l1 s1 \<Longrightarrow>
   run_pages r limit ams k l1 s1 = Some (pgs, x) \<Longrightarrow>
   run_pages r limit ams (Suc k) l s = Some (page_list (fst (request r l s)) @ pgs, x)"
  by (auto simp: run_pages_def split: option.splits step.splits)

lemma run_pages_0:
  "iteration r limit ams l s = Exit x \<Longrightarrow>
   run_pages r limit ams 0 l s = Some (page_list (fst (request r l s)), x)"
  by (simp add: run_pages_def)

lemma loop_run_pages:
  assumes "loop r limit ams l s = Some x"
  shows "\<exists>k pgs. run_pages r limit ams k l s = Some (pgs, x)"
proof (rule loop.raw_induct
    [where P = "\<lambda>r limit ams l s x. \<exists>k pgs. run_pages r limit ams k l s = Some (pgs, x)",
     OF _ assms])
  fix loop' :: "'a requester \<Rightarrow> int \<Rightarrow> bool option \<Rightarrow> locals \<Rightarrow> 'a \<Rightarrow> exit option"
  fix r limit ams l s x
  assume IH: "\<And>r limit ams l s y. loop' r limit ams l s = Some y \<Longrightarrow>
                \<exists>k pgs. run_pages r limit ams k l s = Some (pgs, y)"
    and body: "(case iteration r limit ams l s of Exit x \<Rightarrow> Some x
                | Continue l' s' \<Rightarrow> loop' r limit ams l' s') = Some x"
  show "\<exists>k pgs. run_pages r limit ams k l s = Some (pgs, x)"
  proof (cases "iteration r limit ams l s")
    case (Exit y)
    with body have "y = x" by simp
    with run_pages_0 [OF Exit] show ?thesis by auto
  next
    case (Continue l1 s1)
    with body have "loop' r limit ams l1 s1 = Some x" by simp
    from IH [OF this] obtain k pgs where "run_pages r limit ams k l1 s1 = Some (pgs, x)"
      by blast
    from run_pages_Suc [OF Continue this] show ?thesis by auto
  qed
qed



lemma run_pages_Break_gen:
  assumes "run_pages r limit ams k l s = Some (pgs, Break lf)"
    and "length (out l) \<le> nat limit" and "ams = None \<longrightarrow> \<not> flag l"
  shows "length pgs = Suc k \<and>
    out lf = take (nat limit) (out l @ filter (kept ams) (first_seen (check l) (nodes_of pgs))) \<and>
    removed lf = removed l +
       of_nat (length (filter (filtered_out ams) (first_seen (check l) (nodes_of pgs)))) \<and>
    flag lf = (HasNextPage (PageInfo (last pgs)) \<and>
       (flag l \<or> (\<exists>p \<in> set (first_seen (check l) (nodes_of pgs)). filtered_out ams p))) \<and>
    TotalCount (res lf) = responsePage.TotalCount (last pgs) \<and>
    SearchCapped (res lf) = SearchCapped (res l) \<and>
    (HasNextPage (PageInfo (last pgs)) \<longrightarrow> int (length (out lf)) = limit)"
proof -
  from assms(1) obtain pgs0 l' s' where
    ap: "after_pages r limit ams k l s = Some (pgs0, l', s')" and
    it: "iteration r limit ams l' s' = Exit (Break lf)" and
    pgs: "pgs = pgs0 @ page_list (fst (request r l' s'))"
    by (auto simp: run_pages_def split: option.splits step.splits)
  from after_pages_inv [OF ap assms(2)] have
    k: "length pgs0 = k" and
    o': "out l' = take (nat limit) (out l @ filter (kept ams) (first_seen (check l) (nodes_of pgs0)))" and
    c': "check l' = check l \<union> Number ` set (nodes_of pgs0)" and
    r': "removed l' = removed l +
       of_nat (length (filter (filtered_out ams) (first_seen (check l) (nodes_of pgs0))))" and
    f': "flag l' = (flag l \<or> (\<exists>p \<in> set (first_seen (check l) (nodes_of pgs0)). filtered_out ams p))" and
    s': "SearchCapped (res l') = SearchCapped (res l)"
    by simp_all
  have len': "length (out l') \<le> nat limit" using o' by simp
  have nf': "ams = None \<longrightarrow> \<not> flag l'" using f' assms(3) by (simp add: filtered_out_def)
  from it len' nf' obtain page s1 where
    rq: "request r l' s' = ((Some page, None), s1)" and
    o: "out lf = take (nat limit) (out l' @ filter (kept ams) (first_seen (check l') (Nodes page)))" and
    rm: "removed lf = removed l' +
       of_nat (length (filter (filtered_out ams) (first_seen (check l') (Nodes page))))" and
    f: "flag lf = (HasNextPage (PageInfo page) \<and>
       (flag l' \<or> (\<exists>p \<in> set (first_seen (check l') (Nodes page)). filtered_out ams p)))" and
    t: "TotalCount (res lf) = responsePage.TotalCount page" and
    sc: "SearchCapped (res lf) = SearchCapped (res l')" and
    hl: "HasNextPage (PageInfo page) \<longrightarrow> int (length (out lf)) = limit"
    by (rule iteration_Break_effect)
  have pgs': "pgs = pgs0 @ [page]" using pgs rq by (simp add: page_list_def)
  have fs: "first_seen (check l) (nodes_of pgs) =
            first_seen (check l) (nodes_of pgs0) @ first_seen (check l') (Nodes page)"
    by (simp add: pgs' first_seen_append c')
  have "length pgs = Suc k" using k pgs' by simp
  moreover have "out lf = take (nat limit) (out l @ filter (kept ams) (first_seen (check l) (nodes_of pgs)))"
    unfolding o o' fs by (simp only: take_take_append filter_append append_assoc)
  moreover have "removed lf = removed l +
       of_nat (length (filter (filtered_out ams) (first_seen (check l) (nodes_of pgs))))"
    unfolding rm r' fs by simp
  moreover have "flag lf = (HasNextPage (PageInfo (last pgs)) \<and>
       (flag l \<or> (\<exists>p \<in> set (first_seen (check l) (nodes_of pgs)). filtered_out ams p)))"
  proof -
    have "last pgs = page" using pgs' by simp
    moreover have "set (first_seen (check l) (nodes_of pgs)) =
        set (first_seen (check l) (nodes_of pgs0)) \<union> set (first_seen (check l') (Nodes page))"
      by (simp only: fs set_append)
    ultimately show ?thesis using f f' by auto
  qed
  moreover have "TotalCount (res lf) = responsePage.TotalCount (last pgs)"
    using t pgs' by simp
  moreover have "SearchCapped (res lf) = SearchCapped (res l)"
    using sc s' by simp
  moreover have "HasNextPage (PageInfo (last pgs)) \<longrightarrow> int (length (out lf)) = limit"
    using hl pgs' by simp
  ultimately show ?thesis by simp
qed

lemma run_pages_Break:
  assumes "run_pages r limit ams k (initial limit ams) s = Some (pgs, Break lf)"
  shows "length pgs = Suc k"
    and "out lf = take (nat limit) (filter (kept ams) (first_seen {} (nodes_of pgs)))"
    and "removed lf = of_nat (length (filter (filtered_out ams) (first_seen {} (nodes_of pgs))))"
    and "flag lf = (HasNextPage (PageInfo (last pgs)) \<and>
           (\<exists>p \<in> set (first_seen {} (nodes_of pgs)). filtered_out ams p))"
    and "TotalCount (res lf) = responsePage.TotalCount (last pgs)"
    and "SearchCapped (res lf) = False"
    and "HasNextPage (PageInfo (last pgs)) \<longrightarrow> int (length (out lf)) = limit"
proof -
  have pre: "length (out (initial limit ams)) \<le> nat limit"
    "ams = None \<longrightarrow> \<not> flag (initial limit ams)"
    by (simp_all add: initial_def)
  have i: "out (initial limit ams) = []" "check (initial limit ams) = {}"
    "removed (initial limit ams) = 0" "flag (initial limit ams) = False"
    "SearchCapped (res (initial limit ams)) = False"
    by (simp_all add: initial_def)
  note g = run_pages_Break_gen [OF assms pre, unfolded i append_Nil add_0 simp_thms]
  from g show "length pgs = Suc k" by blast
  from g show "out lf = take (nat limit) (filter (kept ams) (first_seen {} (nodes_of pgs)))"
    by blast
  from g show "removed lf =
      of_nat (length (filter (filtered_out ams) (first_seen {} (nodes_of pgs))))"
    by blast
  from g show "flag lf = (HasNextPage (PageInfo (last pgs)) \<and>
           (\<exists>p \<in> set (first_seen {} (nodes_of pgs)). filtered_out ams p))"
    by blast
  from g show "TotalCount (res lf) = responsePage.TotalCount (last pgs)" by blast
  from g show "SearchCapped (res lf) = False" by blast
  from g show "HasNextPage (PageInfo (last pgs)) \<longrightarrow> int (length (out lf)) = limit" by blast
qed

lemma fetch_run_pages:
  "run_pages r limit ams k (initial limit ams) s = Some (pgs, x) \<Longrightarrow>
   fetchPullRequests r s limit ams = Some (finish x)"
  by (simp add: fetchPullRequests_def run_pages_loop)

lemma fetch_ReturnedE:
  assumes "fetchPullRequests r s limit ams = Some (Returned (Some result, None))"
  obtains k pgs lf where
    "run_pages r limit ams k (initial limit ams) s = Some (pgs, Break lf)"
    "result = (res lf)\<lparr>TotalCount := TotalCount (res lf) - removed lf\<rparr>"
proof -
  from assms obtain x where
    lp: "loop r limit ams (initial limit ams) s = Some x" and
    fx: "finish x = Returned (Some result, None)"
    by (auto simp: fetchPullRequests_def)
  from fx obtain lf where x: "x = Break lf"
    and result: "result = (res lf)\<lparr>TotalCount := TotalCount (res lf) - removed lf\<rparr>"
    by (cases x) (auto simp: finish_def)
  from loop_run_pages [OF lp] x obtain k pgs where
    "run_pages r limit ams k (initial limit ams) s = Some (pgs, Break lf)" by auto
  from that [OF this result] show thesis .
qed

lemma fetched_pages_result:
  assumes "fetchPullRequests r s limit ams = Some (Returned (Some result, None))"
    and "fetched_pages r s limit ams k = Some pgs"
  obtains lf where
    "run_pages r limit ams k (initial limit ams) s = Some (pgs, Break lf)"
    "result = (res lf)\<lparr>TotalCount := TotalCount (res lf) - removed lf\<rparr>"
proof -
  from assms(2) obtain x where
    rp: "run_pages r limit ams k (initial limit ams) s = Some (pgs, x)"
    by (auto simp: fetched_pages_def)
  from fetch_run_pages [OF rp] assms(1) have fx: "finish x = Returned (Some result, None)"
    by simp
  then obtain lf where x: "x = Break lf"
    and result: "result = (res lf)\<lparr>TotalCount := TotalCount (res lf) - removed lf\<rparr>"
    by (cases x) (auto simp: finish_def)
  from rp x result show thesis by (intro that [of lf]) simp_all
qed

section \<open>More about the loops\<close>

lemma process_nodes_broke_append:
  "snd (process_nodes limit ams xs l) \<Longrightarrow>
   process_nodes limit ams (xs @ ys) l = process_nodes limit ams xs l"
  by (induction xs arbitrary: l) (auto simp: Let_def)

lemma process_nodes_prefix:
  "prefix (out l) (out (fst (process_nodes limit ams ns l)))"
proof (induction ns arbitrary: l)
  case Nil
  then show ?case by simp
next
  case (Cons p ps)
  have a: "prefix (out l) (out (append_pr limit p (l\<lparr>check := insert (Number p) (check l)\<rparr>)))"
    by (simp add: append_pr_def)
  have b: "prefix (out l)
     (out (fst (process_nodes limit ams ps (append_pr limit p (l\<lparr>check := insert (Number p) (check l)\<rparr>)))))"
    using a Cons.IH prefix_order.order_trans by blast
  have c: "prefix (out l)
     (out (fst (process_nodes limit ams ps
        (l\<lparr>check := insert (Number p) (check l), removed := removed l + 1,
            res := (res l)\<lparr>TotalCountIsUpperBound := True\<rparr>\<rparr>))))"
    using Cons.IH [of "l\<lparr>check := insert (Number p) (check l), removed := removed l + 1,
            res := (res l)\<lparr>TotalCountIsUpperBound := True\<rparr>\<rparr>"] by simp
  show ?case using a b c Cons.IH [of l] by (simp add: Let_def)
qed

lemma after_pages_pageLimit:
  "after_pages r limit ams k l s = Some (pgs, l', s') \<Longrightarrow>
   pageLimit l' \<le> pageLimit l \<and> (ams \<noteq> None \<longrightarrow> pageLimit l' = pageLimit l)"
proof (induction k arbitrary: l s pgs)
  case 0
  then show ?case by simp
next
  case (Suc k)
  from Suc.prems obtain l1 s1 pgs1 where
    it: "iteration r limit ams l s = Continue l1 s1" and
    ap: "after_pages r limit ams k l1 s1 = Some (pgs1, l', s')"
    by (rule after_pages_SucE)
  from it obtain pg l2 where
    "request r l s = ((Some pg, None), s1)" and
    pn: "process_nodes limit ams (Nodes pg)
       (l\<lparr>res := (res l)\<lparr>TotalCount := responsePage.TotalCount pg\<rparr>\<rparr>) = (l2, False)" and
    "HasNextPage (PageInfo pg)" and
    "int (length (out l2)) \<noteq> limit" and
    l1: "l1 = l2\<lparr>endCursor := Some (EndCursor (PageInfo pg)),
              pageLimit := (if ams = None
                            then min_int (pageLimit l2) (limit - int (length (out l2)))
                            else pageLimit l2)\<rparr>"
    by (rule iteration_Continue)
  have "pageLimit l2 = pageLimit l"
    using process_nodes_frame [of limit ams "Nodes pg"
        "l\<lparr>res := (res l)\<lparr>TotalCount := responsePage.TotalCount pg\<rparr>\<rparr>"] pn by simp
  then have "pageLimit l1 \<le> pageLimit l \<and> (ams \<noteq> None \<longrightarrow> pageLimit l1 = pageLimit l)"
    by (simp add: l1 min_int_def)
  with Suc.IH [OF ap] show ?case by auto
qed

section \<open>The claims\<close>

subsection \<open>C1: the upper-bound flag\<close>

text \<open>
  Claim C1 says that once the inclusion predicate has removed a record the returned
  \<open>TotalCountIsUpperBound\<close> is true, also when the last fetched page reports no next
  page.  Line 75 resets the flag without looking at it: with predicate \<open>true\<close>, the single
  last page \<open>page_d\<close> and limit 10, pull request 1 is removed, and the flag comes back
  false.
\<close>

theorem C1_counterexample:
  "fetchPullRequests scripted [ok page_d] 10 (Some True) =
     Some (Returned (Some \<lparr> TotalCount = 1, PullRequests = [pr_of 2 True],
                            SearchCapped = False, TotalCountIsUpperBound = False \<rparr>, None)) \<and>
   fetched_pages scripted [ok page_d] 10 (Some True) 0 = Some [page_d] \<and>
   removed_by_predicate (Some True) [page_d] = 1 \<and>
   HasNextPage (PageInfo page_d) = False"
  by (simp add: eval_defs)

text \<open>
  Claim C1 as the code has it: with an inclusion predicate, the returned flag is true
  exactly when the predicate removed a record and the last fetched page reports a next
  page (the loop stopped at the limit); while the loop goes on, the flag is true exactly
  when a record has been removed so far, so it stays true from the first removal on.
\<close>

theorem C1_upper_bound_flag:
  assumes "fetchPullRequests r s limit (Some b) = Some (Returned (Some result, None))"
    and "fetched_pages r s limit (Some b) k = Some pgs"
  shows "(TotalCountIsUpperBound result \<longleftrightarrow>
            0 < removed_by_predicate (Some b) pgs \<and> HasNextPage (PageInfo (last pgs))) \<and>
         (after_pages r limit (Some b) j (initial limit (Some b)) s = Some (pgs', l', s') \<longrightarrow>
            (flag l' \<longleftrightarrow> 0 < removed_by_predicate (Some b) pgs'))"
proof -
  from assms obtain lf where
    rp: "run_pages r limit (Some b) k (initial limit (Some b)) s = Some (pgs, Break lf)" and
    result: "result = (res lf)\<lparr>TotalCount := TotalCount (res lf) - removed lf\<rparr>"
    by (rule fetched_pages_result)
  have pos: "0 < removed_by_predicate (Some b) ps \<longleftrightarrow>
        (\<exists>p \<in> set (first_seen {} (nodes_of ps)). filtered_out (Some b) p)" for ps
    by (simp add: removed_by_predicate_def filter_empty_conv)
  have "TotalCountIsUpperBound result \<longleftrightarrow>
          0 < removed_by_predicate (Some b) pgs \<and> HasNextPage (PageInfo (last pgs))"
    using run_pages_Break(4) [OF rp] by (auto simp: result pos)
  moreover have "flag l' \<longleftrightarrow> 0 < removed_by_predicate (Some b) pgs'"
    if ap: "after_pages r limit (Some b) j (initial limit (Some b)) s = Some (pgs', l', s')"
  proof -
    have "length (out (initial limit (Some b))) \<le> nat limit" by (simp add: initial_def)
    from after_pages_inv [OF ap this] show ?thesis
      by (simp add: pos initial_def)
  qed
  ultimately show ?thesis by blast
qed

text \<open>
  C1 at work: limit 3, predicate \<open>true\<close>, two pages that both report a next page.  One
  record is removed on the first page and the limit is reached on the second.
\<close>

theorem C1_upper_bound_flag_witness:
  "fetchPullRequests scripted [ok page_c, ok page_f] 3 (Some True) =
     Some (Returned (Some \<lparr> TotalCount = 8,
                            PullRequests = [pr_of 2 True, pr_of 3 True, pr_of 4 True],
                            SearchCapped = False, TotalCountIsUpperBound = True \<rparr>, None)) \<and>
   fetched_pages scripted [ok page_c, ok page_f] 3 (Some True) 1 = Some [page_c, page_f] \<and>
   removed_by_predicate (Some True) [page_c, page_f] = 1 \<and>
   HasNextPage (PageInfo (last [page_c, page_f])) \<and>
   after_pages scripted 3 (Some True) 1 (initial 3 (Some True)) [ok page_c, ok page_f] =
     Some ([page_c],
           \<lparr> pageLimit = 100, endCursor = Some ''cursor'',
             res = \<lparr> TotalCount = 9, PullRequests = [pr_of 2 True, pr_of 3 True],
                     SearchCapped = False, TotalCountIsUpperBound = True \<rparr>,
             check = {1, 2, 3}, removed = 1 \<rparr>,
           [ok page_f]) \<and>
   removed_by_predicate (Some True) [page_c] = 1"
proof -
  have f: "fetchPullRequests scripted [ok page_c, ok page_f] 3 (Some True) =
     Some (Returned (Some \<lparr> TotalCount = 8,
                            PullRequests = [pr_of 2 True, pr_of 3 True, pr_of 4 True],
                            SearchCapped = False, TotalCountIsUpperBound = True \<rparr>, None))"
    by (simp add: eval_defs)
  have p: "fetched_pages scripted [ok page_c, ok page_f] 3 (Some True) 1 = Some [page_c, page_f]"
    by (simp add: eval_defs)
  have a: "after_pages scripted 3 (Some True) 1 (initial 3 (Some True)) [ok page_c, ok page_f] =
     Some ([page_c],
           \<lparr> pageLimit = 100, endCursor = Some ''cursor'',
             res = \<lparr> TotalCount = 9, PullRequests = [pr_of 2 True, pr_of 3 True],
                     SearchCapped = False, TotalCountIsUpperBound = True \<rparr>,
             check = {1, 2, 3}, removed = 1 \<rparr>,
           [ok page_f])"
    by (simp add: eval_defs) auto
  from C1_upper_bound_flag [OF f p, of 1 "[page_c]" _ "[ok page_f]"] a f p
  show ?thesis by (simp add: eval_defs)
qed

subsection \<open>C2: exact count without a predicate\<close>

text \<open>
  Claim C2: an invocation without inclusion predicate that returns a result returns
  the flag false and the total count of the last page it fetched; nothing is
  subtracted, whichever way the loop was left.
\<close>

theorem C2_exact_count_without_predicate:
  assumes "fetchPullRequests r s limit None = Some (Returned (Some result, None))"
    and "fetched_pages r s limit None k = Some pgs"
  shows "\<not> TotalCountIsUpperBound result \<and>
         TotalCount result = responsePage.TotalCount (last pgs) \<and>
         removed_by_predicate None pgs = 0 \<and>
         length pgs = Suc k"
proof -
  from assms obtain lf where
    rp: "run_pages r limit None k (initial limit None) s = Some (pgs, Break lf)" and
    result: "result = (res lf)\<lparr>TotalCount := TotalCount (res lf) - removed lf\<rparr>"
    by (rule fetched_pages_result)
  have none: "removed_by_predicate None pgs = 0"
    by (simp add: removed_by_predicate_def filtered_out_def)
  have "removed lf = 0"
    using run_pages_Break(3) [OF rp] by (simp add: filtered_out_def)
  moreover have "\<not> flag lf"
    using run_pages_Break(4) [OF rp] by (simp add: filtered_out_def)
  ultimately show ?thesis
    using run_pages_Break(1,5) [OF rp] none by (simp add: result)
qed

text \<open>C2 at work: two pages, limit 10, no predicate.\<close>

theorem C2_exact_count_without_predicate_witness:
  "fetchPullRequests scripted two_pages 10 None =
     Some (Returned (Some \<lparr> TotalCount = 8,
                            PullRequests = [pr_of 1 False, pr_of 2 True, pr_of 3 True],
                            SearchCapped = False, TotalCountIsUpperBound = False \<rparr>, None)) \<and>
   fetched_pages scripted two_pages 10 None 1 = Some [page_a, page_b] \<and>
   responsePage.TotalCount (last [page_a, page_b]) = 8 \<and>
   removed_by_predicate None [page_a, page_b] = 0"
proof -
  have f: "fetchPullRequests scripted two_pages 10 None =
     Some (Returned (Some \<lparr> TotalCount = 8,
                            PullRequests = [pr_of 1 False, pr_of 2 True, pr_of 3 True],
                            SearchCapped = False, TotalCountIsUpperBound = False \<rparr>, None))"
    by (simp add: eval_defs)
  have p: "fetched_pages scripted two_pages 10 None 1 = Some [page_a, page_b]"
    by (simp add: eval_defs)
  from C2_exact_count_without_predicate [OF f p] f p show ?thesis by simp
qed

subsection \<open>C3: the returned total count\<close>

text \<open>
  Claim C3: the returned total count is the total count of the last fetched page minus
  the number of records the predicate removed; records skipped as duplicates are not
  among them.  The subtraction is Go's, on 64-bit integers; read as signed numbers it is
  the subtraction of integers unless it underflows.
\<close>

theorem C3_total_count:
  assumes "fetchPullRequests r s limit ams = Some (Returned (Some result, None))"
    and "fetched_pages r s limit ams k = Some pgs"
  shows "TotalCount result =
           responsePage.TotalCount (last pgs) - of_nat (removed_by_predicate ams pgs) \<and>
         (- (2 ^ 63) \<le> sint (responsePage.TotalCount (last pgs)) - int (removed_by_predicate ams pgs) \<longrightarrow>
            sint (TotalCount result) =
              sint (responsePage.TotalCount (last pgs)) - int (removed_by_predicate ams pgs))"
proof -
  from assms obtain lf where
    rp: "run_pages r limit ams k (initial limit ams) s = Some (pgs, Break lf)" and
    result: "result = (res lf)\<lparr>TotalCount := TotalCount (res lf) - removed lf\<rparr>"
    by (rule fetched_pages_result)
  have eq: "TotalCount result =
      responsePage.TotalCount (last pgs) - of_nat (removed_by_predicate ams pgs)"
    using run_pages_Break(3,5) [OF rp] by (simp add: result removed_by_predicate_def)
  show ?thesis
  proof (intro conjI impI)
    show "TotalCount result =
      responsePage.TotalCount (last pgs) - of_nat (removed_by_predicate ams pgs)"
      by (rule eq)
  next
    assume "- (2 ^ 63) \<le> sint (responsePage.TotalCount (last pgs)) - int (removed_by_predicate ams pgs)"
    then have "sint (responsePage.TotalCount (last pgs) - of_nat (removed_by_predicate ams pgs)) =
        sint (responsePage.TotalCount (last pgs)) - int (removed_by_predicate ams pgs)"
      by (rule sint_sub_of_nat)
    then show "sint (TotalCount result) =
        sint (responsePage.TotalCount (last pgs)) - int (removed_by_predicate ams pgs)"
      by (simp only: eq)
  qed
qed

text \<open>
  C3 at work: predicate \<open>true\<close>, two pages; pull request 1 is removed, the duplicates of
  2 and 3 on the second page are skipped and not subtracted: 8 - 1 = 7.
\<close>

theorem C3_total_count_witness:
  "fetchPullRequests scripted [ok page_c, ok page_b] 10 (Some True) =
     Some (Returned (Some \<lparr> TotalCount = 7, PullRequests = [pr_of 2 True, pr_of 3 True],
                            SearchCapped = False, TotalCountIsUpperBound = False \<rparr>, None)) \<and>
   fetched_pages scripted [ok page_c, ok page_b] 10 (Some True) 1 = Some [page_c, page_b] \<and>
   responsePage.TotalCount (last [page_c, page_b]) = 8 \<and>
   removed_by_predicate (Some True) [page_c, page_b] = 1 \<and>
   - (2 ^ 63) \<le> sint (responsePage.TotalCount (last [page_c, page_b])) -
                  int (removed_by_predicate (Some True) [page_c, page_b]) \<and>
   sint (TotalCount \<lparr> TotalCount = 7, PullRequests = [pr_of 2 True, pr_of 3 True],
                      SearchCapped = False, TotalCountIsUpperBound = False \<rparr>) =
     sint (responsePage.TotalCount (last [page_c, page_b])) -
     int (removed_by_predicate (Some True) [page_c, page_b])"
proof -
  have f: "fetchPullRequests scripted [ok page_c, ok page_b] 10 (Some True) =
     Some (Returned (Some \<lparr> TotalCount = 7, PullRequests = [pr_of 2 True, pr_of 3 True],
                            SearchCapped = False, TotalCountIsUpperBound = False \<rparr>, None))"
    by (simp add: eval_defs)
  have p: "fetched_pages scripted [ok page_c, ok page_b] 10 (Some True) 1 = Some [page_c, page_b]"
    by (simp add: eval_defs)
  have n: "removed_by_predicate (Some True) [page_c, page_b] = 1"
    by (simp add: eval_defs)
  have t: "responsePage.TotalCount (last [page_c, page_b]) = 8"
    by (simp add: eval_defs)
  have h: "- (2 ^ 63) \<le> sint (responsePage.TotalCount (last [page_c, page_b])) -
                  int (removed_by_predicate (Some True) [page_c, page_b])"
    unfolding n t by simp
  from C3_total_count [OF f p] h
  have c: "sint (TotalCount \<lparr> TotalCount = 7, PullRequests = [pr_of 2 True, pr_of 3 True],
                      SearchCapped = False, TotalCountIsUpperBound = False \<rparr>) =
     sint (responsePage.TotalCount (last [page_c, page_b])) -
     int (removed_by_predicate (Some True) [page_c, page_b])"
    by blast
  from f p t n h c show ?thesis by blast
qed

subsection \<open>C4: the limit\<close>

text \<open>
  Claim C4: for a limit that is not negative, the returned list is never longer than the
  limit.
\<close>

theorem C4_limit:
  assumes "fetchPullRequests r s limit ams = Some (Returned (Some result, None))"
    and "0 \<le> limit"
  shows "int (length (PullRequests result)) \<le> limit"
proof -
  from assms(1) obtain k pgs lf where
    rp: "run_pages r limit ams k (initial limit ams) s = Some (pgs, Break lf)" and
    result: "result = (res lf)\<lparr>TotalCount := TotalCount (res lf) - removed lf\<rparr>"
    by (rule fetch_ReturnedE)
  have "length (out lf) \<le> nat limit"
    using run_pages_Break(2) [OF rp] by simp
  with assms(2) show ?thesis by (simp add: result)
qed

text \<open>C4 at work: limit 2, two pages with three distinct pull requests.\<close>

theorem C4_limit_witness:
  "fetchPullRequests scripted two_pages 2 None =
     Some (Returned (Some \<lparr> TotalCount = 7, PullRequests = [pr_of 1 False, pr_of 2 True],
                            SearchCapped = False, TotalCountIsUpperBound = False \<rparr>, None)) \<and>
   (0 :: int) \<le> 2 \<and>
   int (length [pr_of 1 False, pr_of 2 True]) \<le> 2"
proof -
  have f: "fetchPullRequests scripted two_pages 2 None =
     Some (Returned (Some \<lparr> TotalCount = 7, PullRequests = [pr_of 1 False, pr_of 2 True],
                            SearchCapped = False, TotalCountIsUpperBound = False \<rparr>, None))"
    by (simp add: eval_defs)
  from C4_limit [OF f] f show ?thesis by simp
qed

subsection \<open>C5: deduplication\<close>

text \<open>
  Claim C5 says that no two records with the same key other than the unset value 0 both
  appear in the output.  Line 50 skips a record only when its key is present and
  positive, so two records with the key \<open>-1\<close> both reach the output.
\<close>

theorem C5_counterexample:
  "fetchPullRequests scripted [ok page_e] 10 None =
     Some (Returned (Some \<lparr> TotalCount = 2,
                            PullRequests = [pr_of (- 1) False, pr_of (- 1) True],
                            SearchCapped = False, TotalCountIsUpperBound = False \<rparr>, None)) \<and>
   Number (pr_of (- 1) False) = Number (pr_of (- 1) True) \<and>
   Number (pr_of (- 1) False) \<noteq> 0 \<and>
   pr_of (- 1) False \<noteq> pr_of (- 1) True"
  by (simp add: eval_defs)

text \<open>
  Claim C5 as the code has it: in the output of a successful invocation no two records
  share a positive key; a record whose positive key is already present is skipped and
  leaves the locals as they are; a record whose key is zero or negative is never
  skipped: whenever it passes the predicate and there is room it is appended right
  after the output so far, whatever keys are present and whatever the output already
  holds.
\<close>

theorem C5_dedup:
  "(fetchPullRequests r s limit ams = Some (Returned (Some result, None)) \<longrightarrow>
      distinct (map Number (filter (\<lambda>p. 0 < Number p) (PullRequests result)))) \<and>
   (Number p \<in> check l \<and> 0 < Number p \<longrightarrow>
      process_nodes limit ams (p # ps) l = process_nodes limit ams ps l) \<and>
   (Number q \<le> 0 \<and> kept ams q \<and> int (length (out l)) < limit \<longrightarrow>
      prefix (out l @ [q]) (out (fst (process_nodes limit ams (q # qs) l))))"
proof (intro conjI impI)
  assume "fetchPullRequests r s limit ams = Some (Returned (Some result, None))"
  then obtain k pgs lf where
    rp: "run_pages r limit ams k (initial limit ams) s = Some (pgs, Break lf)" and
    result: "result = (res lf)\<lparr>TotalCount := TotalCount (res lf) - removed lf\<rparr>"
    by (rule fetch_ReturnedE)
  let ?all = "first_seen {} (nodes_of pgs)"
  have o: "PullRequests result = take (nat limit) (filter (kept ams) ?all)"
    using run_pages_Break(2) [OF rp] by (simp add: result)
  have "subseq (take (nat limit) (filter (kept ams) ?all)) (filter (kept ams) ?all)"
    by (rule prefix_imp_subseq) (rule take_is_prefix)
  then have "subseq (PullRequests result) ?all"
    unfolding o using subseq_filter_left subseq_order.order_trans by blast
  then have "subseq (map Number (filter (\<lambda>p. 0 < Number p) (PullRequests result)))
                    (map Number (filter (\<lambda>p. 0 < Number p) ?all))"
    by (intro subseq_map subseq_filter)
  then show "distinct (map Number (filter (\<lambda>p. 0 < Number p) (PullRequests result)))"
    using first_seen_distinct [of "{}" "nodes_of pgs"] subseqs_distinctD by fastforce
next
  assume "Number p \<in> check l \<and> 0 < Number p"
  then show "process_nodes limit ams (p # ps) l = process_nodes limit ams ps l"
    by simp
next
  assume a: "Number q \<le> 0 \<and> kept ams q \<and> int (length (out l)) < limit"
  define l2 where "l2 = append_pr limit q (l\<lparr>check := insert (Number q) (check l)\<rparr>)"
  have o2: "out l2 = out l @ [q]"
    using a by (simp add: l2_def append_pr_def)
  have "prefix (out l2) (out (fst (process_nodes limit ams qs l2)))"
    by (rule process_nodes_prefix)
  moreover have "process_nodes limit ams (q # qs) l = (l2, True) \<or>
                 process_nodes limit ams (q # qs) l = process_nodes limit ams qs l2"
    using a by (auto simp: Let_def l2_def)
  ultimately show "prefix (out l @ [q]) (out (fst (process_nodes limit ams (q # qs) l)))"
    unfolding o2 [symmetric] by auto
qed

text \<open>
  C5 at work: pull request 2 occurs on both pages and once in the output; with the keys
  0 and 2 present and a record with key 0 already in the output, a record with key 2 is
  skipped and the same record with key 0 is appended again, twice.
\<close>

theorem C5_dedup_witness:
  "fetchPullRequests scripted two_pages 10 None =
     Some (Returned (Some \<lparr> TotalCount = 8,
                            PullRequests = [pr_of 1 False, pr_of 2 True, pr_of 3 True],
                            SearchCapped = False, TotalCountIsUpperBound = False \<rparr>, None)) \<and>
   distinct (map Number (filter (\<lambda>p. 0 < Number p)
      [pr_of 1 False, pr_of 2 True, pr_of 3 True])) \<and>
   Number (pr_of 2 True) \<in> check seen_zero \<and>
   0 < Number (pr_of 2 True) \<and>
   process_nodes 10 None [pr_of 2 True, pr_of 0 False] seen_zero =
     process_nodes 10 None [pr_of 0 False] seen_zero \<and>
   Number (pr_of 0 False) \<le> 0 \<and>
   kept None (pr_of 0 False) \<and>
   int (length (out seen_zero)) < 10 \<and>
   out seen_zero = [pr_of 0 False] \<and>
   prefix (out seen_zero @ [pr_of 0 False])
     (out (fst (process_nodes 10 None [pr_of 0 False, pr_of 0 False] seen_zero))) \<and>
   out (fst (process_nodes 10 None [pr_of 0 False, pr_of 0 False] seen_zero)) =
     [pr_of 0 False, pr_of 0 False, pr_of 0 False]"
proof -
  let ?res = "\<lparr> TotalCount = 8,
                PullRequests = [pr_of 1 False, pr_of 2 True, pr_of 3 True],
                SearchCapped = False, TotalCountIsUpperBound = False \<rparr>"
  have f: "fetchPullRequests scripted two_pages 10 None = Some (Returned (Some ?res, None))"
    by (simp add: eval_defs)
  have h2: "Number (pr_of 2 True) \<in> check seen_zero \<and> 0 < Number (pr_of 2 True)"
    by (simp add: seen_zero_def eval_defs)
  have h3: "Number (pr_of 0 False) \<le> 0 \<and> kept None (pr_of 0 False) \<and>
            int (length (out seen_zero)) < 10"
    by (simp add: seen_zero_def eval_defs)
  have o: "out seen_zero = [pr_of 0 False]"
    by (simp add: seen_zero_def eval_defs)
  have e: "out (fst (process_nodes 10 None [pr_of 0 False, pr_of 0 False] seen_zero)) =
     [pr_of 0 False, pr_of 0 False, pr_of 0 False]"
    by (simp add: seen_zero_def eval_defs)
  note c = C5_dedup [where r = scripted and s = two_pages and limit = 10 and ams = None
      and result = ?res and p = "pr_of 2 True" and l = seen_zero and ps = "[pr_of 0 False]"
      and q = "pr_of 0 False" and qs = "[pr_of 0 False]"]
  have c1: "distinct (map Number (filter (\<lambda>p. 0 < Number p)
      [pr_of 1 False, pr_of 2 True, pr_of 3 True]))"
    using c [THEN conjunct1, rule_format, OF f] by simp
  note c2 = c [THEN conjunct2, THEN conjunct1, rule_format, OF h2]
  note c3 = c [THEN conjunct2, THEN conjunct2, rule_format, OF h3]
  show ?thesis
    apply (intro conjI)
    subgoal by (rule f)
    subgoal by (rule c1)
    subgoal by (rule h2 [THEN conjunct1])
    subgoal by (rule h2 [THEN conjunct2])
    subgoal by (rule c2)
    subgoal by (rule h3 [THEN conjunct1])
    subgoal by (rule h3 [THEN conjunct2, THEN conjunct1])
    subgoal by (rule h3 [THEN conjunct2, THEN conjunct2])
    subgoal by (rule o)
    subgoal by (rule c3)
    subgoal by (rule e)
    done
qed

subsection \<open>C6: error propagation\<close>

text \<open>
  Claim C6: when the requester fails on a request, after \<open>k\<close> requests that delivered
  pages and let the loop go on, \<open>fetchPullRequests\<close> returns that error and a nil result,
  whatever the \<open>k\<close> pages held.  The failing request is number \<open>k + 1\<close>, for any
  \<open>k\<close> from 0 on.
\<close>

theorem C6_error_propagation:
  assumes "after_pages r limit ams k (initial limit ams) s = Some (pgs, l, s')"
    and "snd (fst (request r l s')) = Some e"
  shows "fetchPullRequests r s limit ams = Some (Returned (None, Some e)) \<and> length pgs = k"
proof -
  obtain pd err s'' where rq: "request r l s' = ((pd, err), s'')"
    by (metis prod.exhaust)
  with assms(2) have "err = Some e" by simp
  with rq have it: "iteration r limit ams l s' = Exit (Failed e)"
    by (simp add: iteration_def)
  have "loop r limit ams l s' = Some (Failed e)"
    by (subst loop.simps) (simp add: it)
  with loop_after_pages [OF assms(1)]
  have "loop r limit ams (initial limit ams) s = Some (Failed e)" by simp
  then have "fetchPullRequests r s limit ams = Some (Returned (None, Some e))"
    by (simp add: fetchPullRequests_def finish_def)
  moreover have "length (out (initial limit ams)) \<le> nat limit"
    by (simp add: initial_def)
  from after_pages_inv [OF assms(1) this] have "length pgs = k" by simp
  ultimately show ?thesis by simp
qed

text \<open>C6 at work: the second request fails after a first page with two records.\<close>

theorem C6_error_propagation_witness:
  "after_pages scripted 10 None 1 (initial 10 None) failing_script =
     Some ([page_a],
           \<lparr> pageLimit = 8, endCursor = Some ''cursor'',
             res = \<lparr> TotalCount = 7, PullRequests = [pr_of 1 False, pr_of 2 True],
                     SearchCapped = False, TotalCountIsUpperBound = False \<rparr>,
             check = {1, 2}, removed = 0 \<rparr>,
           [(None, Some (Error ''HTTP 502''))]) \<and>
   snd (fst (scripted [(None, Some (Error ''HTTP 502''))] 8 (Some ''cursor''))) =
     Some (Error ''HTTP 502'') \<and>
   fetchPullRequests scripted failing_script 10 None =
     Some (Returned (None, Some (Error ''HTTP 502''))) \<and>
   length [page_a] = 1"
proof -
  let ?l = "\<lparr> pageLimit = 8, endCursor = Some ''cursor'',
             res = \<lparr> TotalCount = 7, PullRequests = [pr_of 1 False, pr_of 2 True],
                     SearchCapped = False, TotalCountIsUpperBound = False \<rparr>,
             check = {1, 2}, removed = 0 \<rparr>"
  have a: "after_pages scripted 10 None 1 (initial 10 None) failing_script =
     Some ([page_a], ?l, [(None, Some (Error ''HTTP 502''))])"
    by (simp add: eval_defs) auto
  have e: "snd (fst (request scripted ?l [(None, Some (Error ''HTTP 502''))])) =
     Some (Error ''HTTP 502'')"
    by simp
  from C6_error_propagation [OF a e] a e show ?thesis by simp
qed

subsection \<open>C7: page sizes\<close>

text \<open>
  Claim C7: a request is made with the page size \<open>pageLimit\<close> of the locals it starts
  from.  Without a predicate the first size is the minimum of 100 and the limit, and
  after each pass that lets the loop go on the next size is at most the previous one
  and at most the limit minus the length of the output; so every size is at most the
  first.  With a predicate the first size is 100 and no pass changes it.
\<close>

theorem C7_page_size:
  "pageLimit (initial limit None) = min 100 limit \<and>
   (iteration r limit None l s = Continue l' s' \<longrightarrow>
      pageLimit l' \<le> pageLimit l \<and>
      pageLimit l' \<le> limit - int (length (out l'))) \<and>
   (after_pages r limit None k (initial limit None) s0 = Some (pgs, l0, s0') \<longrightarrow>
      pageLimit l0 \<le> min 100 limit) \<and>
   pageLimit (initial limit (Some b)) = 100 \<and>
   (iteration r limit (Some b) l s = Continue l' s' \<longrightarrow> pageLimit l' = pageLimit l) \<and>
   (after_pages r limit (Some b) k (initial limit (Some b)) s0 = Some (pgs, l0, s0') \<longrightarrow>
      pageLimit l0 = 100)"
proof -
  have p1: "pageLimit (initial limit None) = min 100 limit"
    by (simp add: initial_def min_int_def min_def)
  have p2: "pageLimit l' \<le> pageLimit l \<and> pageLimit l' \<le> limit - int (length (out l'))"
    if it: "iteration r limit None l s = Continue l' s'"
  proof -
  from it obtain pg l2 where
    "request r l s = ((Some pg, None), s')" and
    pn: "process_nodes limit None (Nodes pg)
       (l\<lparr>res := (res l)\<lparr>TotalCount := responsePage.TotalCount pg\<rparr>\<rparr>) = (l2, False)" and
    "HasNextPage (PageInfo pg)" and
    "int (length (out l2)) \<noteq> limit" and
    l': "l' = l2\<lparr>endCursor := Some (EndCursor (PageInfo pg)),
              pageLimit := (if (None :: bool option) = None
                            then min_int (pageLimit l2) (limit - int (length (out l2)))
                            else pageLimit l2)\<rparr>"
    by (rule iteration_Continue)
  have "pageLimit l2 = pageLimit l"
    using process_nodes_frame [of limit None "Nodes pg"
        "l\<lparr>res := (res l)\<lparr>TotalCount := responsePage.TotalCount pg\<rparr>\<rparr>"] pn by simp
  then show ?thesis
    by (simp add: l' min_int_def)
  qed
  have p3: "pageLimit l0 \<le> min 100 limit"
    if "after_pages r limit None k (initial limit None) s0 = Some (pgs, l0, s0')"
    using after_pages_pageLimit [OF that] by (auto simp: initial_def min_int_def min_def split: if_splits)
  have p4: "pageLimit (initial limit (Some b)) = 100"
    by (simp add: initial_def)
  have p5: "pageLimit l' = pageLimit l"
    if it: "iteration r limit (Some b) l s = Continue l' s'"
  proof -
  from it obtain pg l2 where
    "request r l s = ((Some pg, None), s')" and
    pn: "process_nodes limit (Some b) (Nodes pg)
       (l\<lparr>res := (res l)\<lparr>TotalCount := responsePage.TotalCount pg\<rparr>\<rparr>) = (l2, False)" and
    "HasNextPage (PageInfo pg)" and
    "int (length (out l2)) \<noteq> limit" and
    l': "l' = l2\<lparr>endCursor := Some (EndCursor (PageInfo pg)),
              pageLimit := (if Some b = None
                            then min_int (pageLimit l2) (limit - int (length (out l2)))
                            else pageLimit l2)\<rparr>"
    by (rule iteration_Continue)
  have "pageLimit l2 = pageLimit l"
    using process_nodes_frame [of limit "Some b" "Nodes pg"
        "l\<lparr>res := (res l)\<lparr>TotalCount := responsePage.TotalCount pg\<rparr>\<rparr>"] pn by simp
  then show ?thesis
    by (simp add: l')
  qed
  have p6: "pageLimit l0 = 100"
    if "after_pages r limit (Some b) k (initial limit (Some b)) s0 = Some (pgs, l0, s0')"
    using after_pages_pageLimit [OF that] by (simp add: initial_def)
  from p1 p2 p3 p4 p5 p6 show ?thesis by blast
qed

text \<open>
  C7 at work: limit 3; without predicate the sizes are 3 then 1, with predicate
  \<open>true\<close> they are 100 and 100.
\<close>

theorem C7_page_size_witness:
  "pageLimit (initial 3 None) = min 100 3 \<and>
   iteration scripted 3 None (initial 3 None) two_pages =
     Continue \<lparr> pageLimit = 1, endCursor = Some ''cursor'',
                res = \<lparr> TotalCount = 7, PullRequests = [pr_of 1 False, pr_of 2 True],
                        SearchCapped = False, TotalCountIsUpperBound = False \<rparr>,
                check = {1, 2}, removed = 0 \<rparr> [ok page_b] \<and>
   (1 :: int) \<le> pageLimit (initial 3 None) \<and>
   (1 :: int) \<le> 3 - int (length [pr_of 1 False, pr_of 2 True]) \<and>
   after_pages scripted 3 None 1 (initial 3 None) two_pages =
     Some ([page_a],
           \<lparr> pageLimit = 1, endCursor = Some ''cursor'',
             res = \<lparr> TotalCount = 7, PullRequests = [pr_of 1 False, pr_of 2 True],
                     SearchCapped = False, TotalCountIsUpperBound = False \<rparr>,
             check = {1, 2}, removed = 0 \<rparr>,
           [ok page_b]) \<and>
   (1 :: int) \<le> min 100 3 \<and>
   pageLimit (initial 3 (Some True)) = 100 \<and>
   iteration scripted 3 (Some True) (initial 3 (Some True)) [ok page_c, ok page_f] =
     Continue \<lparr> pageLimit = 100, endCursor = Some ''cursor'',
                res = \<lparr> TotalCount = 9, PullRequests = [pr_of 2 True, pr_of 3 True],
                        SearchCapped = False, TotalCountIsUpperBound = True \<rparr>,
                check = {1, 2, 3}, removed = 1 \<rparr> [ok page_f] \<and>
   after_pages scripted 3 (Some True) 1 (initial 3 (Some True)) [ok page_c, ok page_f] =
     Some ([page_c],
           \<lparr> pageLimit = 100, endCursor = Some ''cursor'',
             res = \<lparr> TotalCount = 9, PullRequests = [pr_of 2 True, pr_of 3 True],
                     SearchCapped = False, TotalCountIsUpperBound = True \<rparr>,
             check = {1, 2, 3}, removed = 1 \<rparr>,
           [ok page_f])"
proof -
  let ?l1 = "\<lparr> pageLimit = 1, endCursor = Some ''cursor'',
                res = \<lparr> TotalCount = 7, PullRequests = [pr_of 1 False, pr_of 2 True],
                        SearchCapped = False, TotalCountIsUpperBound = False \<rparr>,
                check = {1, 2}, removed = 0 \<rparr>"
  let ?l2 = "\<lparr> pageLimit = 100, endCursor = Some ''cursor'',
                res = \<lparr> TotalCount = 9, PullRequests = [pr_of 2 True, pr_of 3 True],
                        SearchCapped = False, TotalCountIsUpperBound = True \<rparr>,
                check = {1, 2, 3}, removed = 1 \<rparr>"
  have i1: "iteration scripted 3 None (initial 3 None) two_pages = Continue ?l1 [ok page_b]"
    by (simp add: eval_defs) auto
  have a1: "after_pages scripted 3 None 1 (initial 3 None) two_pages =
      Some ([page_a], ?l1, [ok page_b])"
    by (simp add: eval_defs) auto
  have i2: "iteration scripted 3 (Some True) (initial 3 (Some True)) [ok page_c, ok page_f] =
      Continue ?l2 [ok page_f]"
    by (simp add: eval_defs) auto
  have a2: "after_pages scripted 3 (Some True) 1 (initial 3 (Some True)) [ok page_c, ok page_f] =
      Some ([page_c], ?l2, [ok page_f])"
    by (simp add: eval_defs) auto
  note n = C7_page_size [of 3 scripted "initial 3 None" two_pages ?l1 "[ok page_b]"
      1 two_pages "[page_a]" ?l1 "[ok page_b]"]
  note y = C7_page_size [of 3 scripted "initial 3 (Some True)" "[ok page_c, ok page_f]" ?l2
      "[ok page_f]" 1 "[ok page_c, ok page_f]" "[page_c]" ?l2 "[ok page_f]" True]
  from n have n1: "pageLimit (initial 3 None) = min 100 3" by blast
  from n i1 have n2: "pageLimit ?l1 \<le> pageLimit (initial 3 None) \<and>
      pageLimit ?l1 \<le> 3 - int (length (out ?l1))" by blast
  from n a1 have n3: "pageLimit ?l1 \<le> min 100 3" by blast
  from y have y1: "pageLimit (initial 3 (Some True)) = 100" by blast
  from n1 n2 n3 y1 i1 a1 i2 a2 show ?thesis by simp
qed

subsection \<open>C8: stopping at the limit\<close>

text \<open>
  Claim C8: without a predicate, the record that brings the output to the limit ends the
  inner loop with \<open>break loop\<close>: the records after it are not looked at, and the outer
  loop is left in the same pass, with no further request.  With a predicate the inner
  loop never breaks: every record of the page is looked at (its key is marked), and the
  outer loop is left only by the checks after the page, on a page without next page or
  with the output at the limit.
\<close>

theorem C8_stop_at_limit:
  "(\<not> (Number p \<in> check l \<and> 0 < Number p) \<and>
    int (length (out (append_pr limit p (l\<lparr>check := insert (Number p) (check l)\<rparr>)))) = limit \<longrightarrow>
      process_nodes limit None (p # ps) l =
        (append_pr limit p (l\<lparr>check := insert (Number p) (check l)\<rparr>), True)) \<and>
   (snd (process_nodes limit None xs l) \<longrightarrow>
      process_nodes limit None (xs @ ys) l = process_nodes limit None xs l \<and>
      int (length (out (fst (process_nodes limit None xs l)))) = limit) \<and>
   (request r l s = ((Some pg, None), s') \<and>
    process_nodes limit None (Nodes pg)
      (l\<lparr>res := (res l)\<lparr>TotalCount := responsePage.TotalCount pg\<rparr>\<rparr>) = (l2, True) \<longrightarrow>
      iteration r limit None l s = Exit (Break l2) \<and>
      loop r limit None l s = Some (Break l2)) \<and>
   \<not> snd (process_nodes limit (Some b) xs l) \<and>
   check (fst (process_nodes limit (Some b) xs l)) = check l \<union> Number ` set xs \<and>
   (iteration r limit (Some b) l s = Exit (Break lf) \<longrightarrow>
      (\<exists>pg' s''. request r l s = ((Some pg', None), s'') \<and>
         (\<not> HasNextPage (PageInfo pg') \<or> int (length (out lf)) = limit)))"
proof -
  have p1: "process_nodes limit None (p # ps) l =
        (append_pr limit p (l\<lparr>check := insert (Number p) (check l)\<rparr>), True)"
    if "\<not> (Number p \<in> check l \<and> 0 < Number p) \<and>
        int (length (out (append_pr limit p (l\<lparr>check := insert (Number p) (check l)\<rparr>)))) = limit"
    using that by (auto simp: Let_def filtered_out_def)
  have p2: "process_nodes limit None (xs @ ys) l = process_nodes limit None xs l \<and>
      int (length (out (fst (process_nodes limit None xs l)))) = limit"
    if "snd (process_nodes limit None xs l)"
    using that process_nodes_broke_append [of limit None xs l ys]
      process_nodes_break [of limit None xs l] by simp
  have p3: "iteration r limit None l s = Exit (Break l2) \<and>
      loop r limit None l s = Some (Break l2)"
    if "request r l s = ((Some pg, None), s') \<and>
        process_nodes limit None (Nodes pg)
          (l\<lparr>res := (res l)\<lparr>TotalCount := responsePage.TotalCount pg\<rparr>\<rparr>) = (l2, True)"
  proof -
    have it: "iteration r limit None l s = Exit (Break l2)"
      using that by (simp add: iteration_def)
    moreover have "loop r limit None l s = Some (Break l2)"
      by (subst loop.simps) (simp add: it)
    ultimately show ?thesis by simp
  qed
  have p4: "\<not> snd (process_nodes limit (Some b) xs l)"
    by (rule process_nodes_no_break) simp
  have p5: "check (fst (process_nodes limit (Some b) xs l)) = check l \<union> Number ` set xs"
    using p4 by (rule process_nodes_check)
  have p6: "\<exists>pg' s''. request r l s = ((Some pg', None), s'') \<and>
         (\<not> HasNextPage (PageInfo pg') \<or> int (length (out lf)) = limit)"
    if it: "iteration r limit (Some b) l s = Exit (Break lf)"
  proof -
    from it obtain pg' s'' l3 broke where
      rq: "request r l s = ((Some pg', None), s'')" and
      pn: "process_nodes limit (Some b) (Nodes pg')
         (l\<lparr>res := (res l)\<lparr>TotalCount := responsePage.TotalCount pg'\<rparr>\<rparr>) = (l3, broke)" and
      why: "broke \<or> \<not> HasNextPage (PageInfo pg') \<or> int (length (out l3)) = limit" and
      lf: "lf = (if \<not> broke \<and> \<not> HasNextPage (PageInfo pg')
             then l3\<lparr>res := (res l3)\<lparr>TotalCountIsUpperBound := False\<rparr>\<rparr> else l3)"
      by (rule iteration_Break)
    have "\<not> broke"
      using process_nodes_no_break [of "Some b" limit "Nodes pg'"
          "l\<lparr>res := (res l)\<lparr>TotalCount := responsePage.TotalCount pg'\<rparr>\<rparr>"] pn by simp
    with why lf have "\<not> HasNextPage (PageInfo pg') \<or> int (length (out lf)) = limit"
      by auto
    with rq show ?thesis by blast
  qed
  from p1 p2 p3 p4 p5 p6 show ?thesis by blast
qed

text \<open>
  C8 at work: without predicate and limit 2 the first page ends the loop at its second
  record; with predicate \<open>true\<close> and limit 2 all three records of \<open>page_c\<close> are looked at
  and the loop is left after the page.
\<close>

theorem C8_stop_at_limit_witness:
  "\<not> (Number (pr_of 2 True) \<in> check ((initial 1 None)\<lparr>check := {1}\<rparr>) \<and> 0 < Number (pr_of 2 True)) \<and>
   int (length (out (append_pr 1 (pr_of 2 True)
      ((initial 1 None)\<lparr>check := {1}\<rparr>
         \<lparr>check := insert (Number (pr_of 2 True)) (check ((initial 1 None)\<lparr>check := {1}\<rparr>))\<rparr>)))) = 1 \<and>
   process_nodes 1 None [pr_of 2 True, pr_of 3 True] ((initial 1 None)\<lparr>check := {1}\<rparr>) =
     (append_pr 1 (pr_of 2 True)
        ((initial 1 None)\<lparr>check := {1}\<rparr>
           \<lparr>check := insert (Number (pr_of 2 True)) (check ((initial 1 None)\<lparr>check := {1}\<rparr>))\<rparr>),
      True) \<and>
   snd (process_nodes 2 None [pr_of 1 False, pr_of 2 True] (initial 2 None)) \<and>
   process_nodes 2 None ([pr_of 1 False, pr_of 2 True] @ [pr_of 3 True]) (initial 2 None) =
     process_nodes 2 None [pr_of 1 False, pr_of 2 True] (initial 2 None) \<and>
   int (length (out (fst (process_nodes 2 None [pr_of 1 False, pr_of 2 True] (initial 2 None))))) = 2 \<and>
   request scripted (initial 2 None) two_pages = ((Some page_a, None), [ok page_b]) \<and>
   process_nodes 2 None (Nodes page_a)
     ((initial 2 None)\<lparr>res := (res (initial 2 None))\<lparr>TotalCount := responsePage.TotalCount page_a\<rparr>\<rparr>) =
     (\<lparr> pageLimit = 2, endCursor = None,
        res = \<lparr> TotalCount = 7, PullRequests = [pr_of 1 False, pr_of 2 True],
                SearchCapped = False, TotalCountIsUpperBound = False \<rparr>,
        check = {1, 2}, removed = 0 \<rparr>, True) \<and>
   loop scripted 2 None (initial 2 None) two_pages =
     Some (Break \<lparr> pageLimit = 2, endCursor = None,
        res = \<lparr> TotalCount = 7, PullRequests = [pr_of 1 False, pr_of 2 True],
                SearchCapped = False, TotalCountIsUpperBound = False \<rparr>,
        check = {1, 2}, removed = 0 \<rparr>) \<and>
   iteration scripted 2 (Some True) (initial 2 (Some True)) [ok page_c, ok page_f] =
     Exit (Break \<lparr> pageLimit = 100, endCursor = None,
        res = \<lparr> TotalCount = 9, PullRequests = [pr_of 2 True, pr_of 3 True],
                SearchCapped = False, TotalCountIsUpperBound = True \<rparr>,
        check = {1, 2, 3}, removed = 1 \<rparr>) \<and>
   snd (process_nodes 2 (Some True) (Nodes page_c) (initial 2 (Some True))) = False \<and>
   check (fst (process_nodes 2 (Some True) (Nodes page_c) (initial 2 (Some True)))) =
     check (initial 2 (Some True)) \<union> Number ` set (Nodes page_c)"
proof -
  let ?la = "(initial 1 None)\<lparr>check := {1}\<rparr>"
  let ?l2 = "\<lparr> pageLimit = 2, endCursor = None,
        res = \<lparr> TotalCount = 7, PullRequests = [pr_of 1 False, pr_of 2 True],
                SearchCapped = False, TotalCountIsUpperBound = False \<rparr>,
        check = {1, 2}, removed = 0 \<rparr>"
  let ?lf = "\<lparr> pageLimit = 100, endCursor = None,
        res = \<lparr> TotalCount = 9, PullRequests = [pr_of 2 True, pr_of 3 True],
                SearchCapped = False, TotalCountIsUpperBound = True \<rparr>,
        check = {1, 2, 3}, removed = 1 \<rparr>"
  have h1: "\<not> (Number (pr_of 2 True) \<in> check ?la \<and> 0 < Number (pr_of 2 True)) \<and>
      int (length (out (append_pr 1 (pr_of 2 True)
        (?la\<lparr>check := insert (Number (pr_of 2 True)) (check ?la)\<rparr>)))) = 1"
    by (simp add: eval_defs)
  have h2: "snd (process_nodes 2 None [pr_of 1 False, pr_of 2 True] (initial 2 None))"
    by (simp add: eval_defs)
  have h3: "request scripted (initial 2 None) two_pages = ((Some page_a, None), [ok page_b]) \<and>
      process_nodes 2 None (Nodes page_a)
        ((initial 2 None)\<lparr>res := (res (initial 2 None))\<lparr>TotalCount := responsePage.TotalCount page_a\<rparr>\<rparr>) =
        (?l2, True)"
    by (simp add: eval_defs) auto
  have h6: "iteration scripted 2 (Some True) (initial 2 (Some True)) [ok page_c, ok page_f] =
      Exit (Break ?lf)"
    by (simp add: eval_defs) auto
  note t1 = C8_stop_at_limit [where p = "pr_of 2 True" and l = ?la and limit = 1
      and ps = "[pr_of 3 True]"]
  note c1 = t1 [THEN conjunct1, rule_format, OF h1]
  note t2 = C8_stop_at_limit [where xs = "[pr_of 1 False, pr_of 2 True]" and l = "initial 2 None"
      and limit = 2 and ys = "[pr_of 3 True]"]
  note c2 = t2 [THEN conjunct2, THEN conjunct1, rule_format, OF h2]
  note t3 = C8_stop_at_limit [where r = scripted and l = "initial 2 None" and s = two_pages
      and limit = 2 and pg = page_a and s' = "[ok page_b]" and ?l2.0 = ?l2]
  note c3 = t3 [THEN conjunct2, THEN conjunct2, THEN conjunct1, rule_format, OF h3, THEN conjunct2]
  note t4 = C8_stop_at_limit [where xs = "Nodes page_c" and l = "initial 2 (Some True)"
      and limit = 2 and b = True]
  note c4 = t4 [THEN conjunct2, THEN conjunct2, THEN conjunct2, THEN conjunct1]
  note c5 = t4 [THEN conjunct2, THEN conjunct2, THEN conjunct2, THEN conjunct2, THEN conjunct1]
  show ?thesis
    apply (intro conjI)
    subgoal by (rule h1 [THEN conjunct1])
    subgoal by (rule h1 [THEN conjunct2])
    subgoal by (rule c1)
    subgoal by (rule h2)
    subgoal by (rule c2 [THEN conjunct1])
    subgoal by (rule c2 [THEN conjunct2])
    subgoal by (rule h3 [THEN conjunct1])
    subgoal by (rule h3 [THEN conjunct2])
    subgoal by (rule c3)
    subgoal by (rule h6)
    subgoal using c4 by (simp only: simp_thms)
    subgoal by (rule c5)
    done
qed

subsection \<open>C9: first-seen order\<close>

text \<open>
  Claim C9: the output of a successful invocation lists, in the order of the pages and
  of the records on each page, the first occurrences that pass the predicate, cut at
  the limit; it is a subsequence of the fetched records.
\<close>

theorem C9_first_seen_order:
  assumes "fetchPullRequests r s limit ams = Some (Returned (Some result, None))"
    and "fetched_pages r s limit ams k = Some pgs"
  shows "PullRequests result =
           take (nat limit) (filter (kept ams) (first_seen {} (nodes_of pgs))) \<and>
         PullRequests result =
           take (nat limit)
             (map ((!) (nodes_of pgs))
                (filter (\<lambda>i. first_occurrence {} (nodes_of pgs) i \<and> kept ams (nodes_of pgs ! i))
                   [0..<length (nodes_of pgs)])) \<and>
         subseq (PullRequests result) (nodes_of pgs)"
proof -
  from assms obtain lf where
    rp: "run_pages r limit ams k (initial limit ams) s = Some (pgs, Break lf)" and
    result: "result = (res lf)\<lparr>TotalCount := TotalCount (res lf) - removed lf\<rparr>"
    by (rule fetched_pages_result)
  let ?ns = "nodes_of pgs"
  have o: "PullRequests result = take (nat limit) (filter (kept ams) (first_seen {} ?ns))"
    using run_pages_Break(2) [OF rp] by (simp add: result)
  have ix: "filter (kept ams) (first_seen {} ?ns) =
        map ((!) ?ns) (filter (\<lambda>i. first_occurrence {} ?ns i \<and> kept ams (?ns ! i)) [0..<length ?ns])"
    by (simp add: first_seen_index [of "{}" ?ns] filter_map comp_def conj_commute)
  have "subseq (take (nat limit) (filter (kept ams) (first_seen {} ?ns)))
               (filter (kept ams) (first_seen {} ?ns))"
    by (rule prefix_imp_subseq) (rule take_is_prefix)
  moreover have "subseq (filter (kept ams) (first_seen {} ?ns)) (first_seen {} ?ns)"
    by (rule subseq_filter_left)
  moreover have "subseq (first_seen {} ?ns) ?ns"
    by (rule first_seen_subseq)
  ultimately have "subseq (PullRequests result) ?ns"
    unfolding o using subseq_order.order_trans by blast
  with o ix show ?thesis by simp
qed

text \<open>C9 at work: two pages with a duplicate across them.\<close>

theorem C9_first_seen_order_witness:
  "fetchPullRequests scripted two_pages 10 None =
     Some (Returned (Some \<lparr> TotalCount = 8,
                            PullRequests = [pr_of 1 False, pr_of 2 True, pr_of 3 True],
                            SearchCapped = False, TotalCountIsUpperBound = False \<rparr>, None)) \<and>
   fetched_pages scripted two_pages 10 None 1 = Some [page_a, page_b] \<and>
   nodes_of [page_a, page_b] = [pr_of 1 False, pr_of 2 True, pr_of 2 True, pr_of 3 True] \<and>
   [pr_of 1 False, pr_of 2 True, pr_of 3 True] =
     take (nat 10) (filter (kept None) (first_seen {} (nodes_of [page_a, page_b]))) \<and>
   subseq [pr_of 1 False, pr_of 2 True, pr_of 3 True] (nodes_of [page_a, page_b])"
proof -
  let ?res = "\<lparr> TotalCount = 8,
                PullRequests = [pr_of 1 False, pr_of 2 True, pr_of 3 True],
                SearchCapped = False, TotalCountIsUpperBound = False \<rparr>"
  have f: "fetchPullRequests scripted two_pages 10 None = Some (Returned (Some ?res, None))"
    by (simp add: eval_defs)
  have p: "fetched_pages scripted two_pages 10 None 1 = Some [page_a, page_b]"
    by (simp add: eval_defs)
  have n: "nodes_of [page_a, page_b] = [pr_of 1 False, pr_of 2 True, pr_of 2 True, pr_of 3 True]"
    by (simp add: eval_defs)
  from C9_first_seen_order [OF f p]
  have c: "PullRequests ?res =
      take (nat 10) (filter (kept None) (first_seen {} (nodes_of [page_a, page_b])))"
    and d: "subseq (PullRequests ?res) (nodes_of [page_a, page_b])"
    by blast+
  from c have c': "[pr_of 1 False, pr_of 2 True, pr_of 3 True] =
      take (nat 10) (filter (kept None) (first_seen {} (nodes_of [page_a, page_b])))"
    by simp
  from d have d': "subseq [pr_of 1 False, pr_of 2 True, pr_of 3 True] (nodes_of [page_a, page_b])"
    by simp
  from f p n c' d' show ?thesis by blast
qed

subsection \<open>C10: \<open>searchPullRequests\<close> on a failed fetch\<close>

text \<open>
  Whenever \<open>fetchPullRequests\<close> returns a nil result with an error, line 271 of
  \<open>searchPullRequests\<close> dereferences the nil result.
\<close>

lemma searchPullRequests_error:
  assumes "fetchPullRequests (searchRequester_Request G)
     \<lparr> client = c, hostname = h, variables = [''q'' \<mapsto> StringVar q], query = t \<rparr> limit ams =
     Some (Returned (None, Some e))"
  shows "searchPullRequests G c h t q limit ams = Some Panic"
  using assms by (simp add: searchPullRequests_def)

text \<open>
  Claim C10 says that \<open>searchPullRequests\<close> hands the error of a failed fetch to its
  caller without dereferencing the nil result.  With a GraphQL client that fails,
  \<open>fetchPullRequests\<close> returns nil and the error, and \<open>searchPullRequests\<close> panics.
\<close>

theorem C10_search_nil_dereference:
  "fetchPullRequests (searchRequester_Request failing_graphql)
     \<lparr> client = (), hostname = ''github.com'', variables = [''q'' \<mapsto> StringVar ''is:pr''],
       query = ''query'' \<rparr> 30 None =
     Some (Returned (None, Some (Error ''HTTP 502''))) \<and>
   searchPullRequests failing_graphql () ''github.com'' ''query'' ''is:pr'' 30 None = Some Panic"
  by (simp add: searchPullRequests_def searchRequester_Request_def failing_graphql_def
      fetchPullRequests_def loop.simps iteration_def initial_def finish_def min_int_def)

end
